theory Spec2Isabelle
  imports Main "HOL-Library.Word"
begin

unbundle bit_operations_syntax

section \<open>Data model of bookcoder.c\<close>

text \<open>
  The C types: \<open>byte_t\<close> is \<open>uint8_t\<close>, \<open>uoffset_t\<close> is \<open>uint32_t\<close> and
  \<open>offset_t\<close> is \<open>int32_t\<close>. A value of \<open>offset_t\<close> is kept as its 32-bit pattern;
  the C comparison of an \<open>offset_t\<close> with a \<open>uoffset_t\<close> converts the signed operand
  to unsigned, which is equality of the bit patterns, and \<open>-1\<close> is the pattern of all ones.
  Values of type \<open>size_t\<close> (file sizes, buffer sizes, chunk sizes) are natural numbers; they
  are taken to stay below \<open>2 ^ 64\<close>, except for the two places where the code computes
  \<open>size - 1\<close>, whose wrap-around at \<open>size = 0\<close> is written out.
  A file is the list of its bytes; a stream opened for reading is that list with a position.
  Read and write failures of the operating system are not part of the model: the only failing
  read is the one that meets the end of the file.
\<close>

type_synonym byte_t = "8 word"
type_synonym uoffset_t = "32 word"
type_synonym offset_t = "32 word"

datatype error =
    EBADMSG           \<comment> \<open>\<open>freadWErrCheck\<close>: short read at end of file\<close>
  | NotEnoughEntropy  \<comment> \<open>"Not enough entropy in book file or book buffer"\<close>
  | SIGFPE            \<comment> \<open>\<open>bkFilSize % bkFilBufSize\<close> with a buffer size of 0\<close>
  | OutOfBounds       \<comment> \<open>a store past the end of \<open>extrFilBuffer\<close> (undefined in C)\<close>

text \<open>The fields of \<open>optionsStruct\<close> and \<open>bookFileStruct\<close> that \<open>mapOffsets\<close> only reads.
  The two fields of \<open>originalFileStruct\<close> that it only reads, \<open>orgFilSize\<close> and
  \<open>orgFilBufSize\<close>, are arguments of \<open>mapOffsets\<close> below.\<close>

record mapConfig =
  allowDuplicates :: bool
  resetAtEndOfBuf :: bool
  bkFilSize :: nat
  bkFilBufSize :: nat

text \<open>What a scan of the book file reads and writes: the buffer and the two positions of
  \<open>bookFileStruct\<close>, the digest of \<open>offsetStruct\<close>, the local \<open>repeatsFound\<close> of
  \<open>mapOffsets\<close>, the position indicator of the stream \<open>bkFil\<close> (\<open>bkFilOff\<close>) and the bytes
  written so far to the stream \<open>bkCd\<close>. The position \<open>orgFilBufPos\<close> in the chunk of the
  original file is an argument of the loop that owns it (\<open>mapChunk\<close> below).\<close>

record mapState =
  bkFilOff :: nat
  bkFilBuffer :: "byte_t list"
  bkFilPos :: uoffset_t
  bkFilBufPos :: uoffset_t
  offsetDigest :: "byte_t \<Rightarrow> offset_t"
  repeatsFound :: int
  bkCd :: "byte_t list"

text \<open>How a scan of the book file for one byte of the original file ends: the byte was mapped
  (\<open>goto getNextOriginalFileByte\<close>), the program exited, or the loop
  \<open>while (bkFilPos < bkFilSize)\<close> ended by its condition.\<close>

datatype scanResult =
    Mapped mapState
  | Aborted error "byte_t list"
  | Exhausted mapState

text \<open>The two loop heads inside the scan: \<open>while (bkFilPos < bkFilSize)\<close> (line 249) and
  \<open>for (; bkFilBufPos < bkFilBufSize; bkFilBufPos++)\<close> (line 251).\<close>

datatype loc = BkFilLoop | BufLoop

section \<open>Offsets as bytes\<close>

text \<open>\<open>fwrite(&byteOffset, 1, sizeof(byteOffset), ...)\<close> writes the four bytes of the
  \<open>uint32_t\<close> in the byte order of the machine, and \<open>extractBytes\<close> reads the book code
  buffer as an array of \<open>uoffset_t\<close> in the same order. The model fixes the little-endian
  order of the usual targets.\<close>

definition offsetBytes :: "uoffset_t \<Rightarrow> byte_t list" where
  "offsetBytes w = [ucast w, ucast (drop_bit 8 w), ucast (drop_bit 16 w), ucast (drop_bit 24 w)]"

definition bytesOffset :: "byte_t list \<Rightarrow> uoffset_t" where
  "bytesOffset bs =
     ucast (bs ! 0) OR push_bit 8 (ucast (bs ! 1)) OR push_bit 16 (ucast (bs ! 2))
       OR push_bit 24 (ucast (bs ! 3))"

text \<open>\<open>bkCdBuffer[i]\<close>: the \<open>i\<close>-th \<open>uoffset_t\<close> of a buffer of bytes.\<close>

definition bkCdBufferAt :: "byte_t list \<Rightarrow> nat \<Rightarrow> uoffset_t" where
  "bkCdBufferAt buf i = bytesOffset (take 4 (drop (4 * i) buf))"

section \<open>mapOffsets\<close>

text \<open>\<open>size - 1\<close> in \<open>size_t\<close>.\<close>

definition sizeMinus1 :: "nat \<Rightarrow> nat" where
  "sizeMinus1 n = (if n = 0 then 2 ^ 64 - 1 else n - 1)"

text \<open>\<open>freadWErrCheck(bkFilBuffer, 1, bkFilBufSize, bkFil, ...)\<close>: the next \<open>bkFilBufSize\<close>
  bytes of the book file, or \<open>EBADMSG\<close> when the file ends before.\<close>

definition freadBkFil :: "byte_t list \<Rightarrow> nat \<Rightarrow> mapState \<Rightarrow> error + mapState" where
  "freadBkFil bkFil n st =
     (if bkFilOff st + n \<le> length bkFil
      then Inr (st\<lparr>bkFilBuffer := take n (drop (bkFilOff st) bkFil), bkFilOff := bkFilOff st + n\<rparr>)
      else Inl EBADMSG)"

text \<open>The block at the label \<open>refillBuffer\<close> (lines 305 to 330).\<close>

definition refillBuffer ::
  "mapConfig \<Rightarrow> byte_t list \<Rightarrow> byte_t \<Rightarrow> mapState \<Rightarrow> (error \<times> byte_t list) + mapState" where
  "refillBuffer cfg bkFil orgFilByte st =
     (let st1 = st\<lparr>bkFilPos := bkFilPos st + of_nat (bkFilBufSize cfg), bkFilBufPos := 0\<rparr> in
      if unat (bkFilPos st1) \<ge> sizeMinus1 (bkFilSize cfg) \<or> resetAtEndOfBuf cfg then
        if offsetDigest st1 orgFilByte = - 1 then Inl (NotEnoughEntropy, bkCd st1)
        else
          (case freadBkFil bkFil (bkFilBufSize cfg) (st1\<lparr>bkFilPos := 0, bkFilOff := 0\<rparr>) of
             Inl e \<Rightarrow> Inl (e, bkCd st1)
           | Inr st2 \<Rightarrow> Inr st2)
      else
        (case freadBkFil bkFil (bkFilBufSize cfg) st1 of
           Inl e \<Rightarrow> Inl (e, bkCd st1)
         | Inr st2 \<Rightarrow> Inr st2))"

text \<open>The loops of lines 249 to 333 for one byte \<open>orgFilByte\<close> of the original file. After
  the block \<open>refillBuffer\<close> and after \<open>continue\<close> the increment \<open>bkFilBufPos++\<close> of the
  \<open>for\<close> loop runs. The result \<open>Mapped\<close> stands for the statements from
  \<open>repeatsFound = 0\<close> to the write of the offset; the \<open>orgFilBufPos++\<close> and the \<open>goto\<close>
  that follow them are in \<open>mapChunk\<close>. A scan that never ends has the value \<open>None\<close>.\<close>

partial_function (option) scanBkFil ::
  "mapConfig \<Rightarrow> byte_t list \<Rightarrow> byte_t \<Rightarrow> loc \<Rightarrow> mapState \<Rightarrow> scanResult option" where
  "scanBkFil cfg bkFil orgFilByte l st =
     (case l of
        BkFilLoop \<Rightarrow>
          if unat (bkFilPos st) < bkFilSize cfg
          then scanBkFil cfg bkFil orgFilByte BufLoop st
          else Some (Exhausted st)
      | BufLoop \<Rightarrow>
          if unat (bkFilBufPos st) < bkFilBufSize cfg then
            (let bkFilByte = bkFilBuffer st ! unat (bkFilBufPos st) in
             if orgFilByte = bkFilByte then
               (let byteOffset = bkFilBufPos st + bkFilPos st in
                if \<not> allowDuplicates cfg \<and> offsetDigest st bkFilByte = byteOffset then
                  (if repeatsFound st \<ge> 2 then
                     (case refillBuffer cfg bkFil orgFilByte st of
                        Inl (e, out) \<Rightarrow> Some (Aborted e out)
                      | Inr st' \<Rightarrow>
                          scanBkFil cfg bkFil orgFilByte BufLoop
                            (st'\<lparr>bkFilBufPos := bkFilBufPos st' + 1\<rparr>))
                   else
                     scanBkFil cfg bkFil orgFilByte BufLoop
                       (st\<lparr>bkFilBufPos :=
                              (if unat (bkFilBufPos st) = sizeMinus1 (bkFilBufSize cfg)
                               then 0 else bkFilBufPos st) + 1,
                           repeatsFound := repeatsFound st + 1\<rparr>))
                else
                  Some (Mapped
                    (st\<lparr>repeatsFound := 0,
                        offsetDigest := (offsetDigest st)(bkFilByte := byteOffset),
                        bkCd := bkCd st @ offsetBytes byteOffset\<rparr>)))
             else if unat (bkFilBufPos st) = sizeMinus1 (bkFilBufSize cfg) then
               (case refillBuffer cfg bkFil orgFilByte st of
                  Inl (e, out) \<Rightarrow> Some (Aborted e out)
                | Inr st' \<Rightarrow>
                    scanBkFil cfg bkFil orgFilByte BufLoop
                      (st'\<lparr>bkFilBufPos := bkFilBufPos st' + 1\<rparr>))
             else
               scanBkFil cfg bkFil orgFilByte BufLoop (st\<lparr>bkFilBufPos := bkFilBufPos st + 1\<rparr>))
          else scanBkFil cfg bkFil orgFilByte BkFilLoop st)"

declare scanBkFil.simps [code]

text \<open>The loop \<open>while (orgFilBufPos < currentChunk)\<close> at the label
  \<open>getNextOriginalFileByte\<close> (line 245), over one chunk \<open>orgFilBuffer\<close> of the original file.
  When the loop \<open>while (bkFilPos < bkFilSize)\<close> ends by its condition, the body of this loop
  is over and its condition is tested again, with nothing changed.\<close>

partial_function (option) mapChunk ::
  "mapConfig \<Rightarrow> byte_t list \<Rightarrow> byte_t list \<Rightarrow> nat \<Rightarrow> uoffset_t \<Rightarrow> mapState
     \<Rightarrow> ((error \<times> byte_t list) + mapState) option" where
  "mapChunk cfg bkFil orgFilBuffer currentChunk orgFilBufPos st =
     (if unat orgFilBufPos < currentChunk then
        (case scanBkFil cfg bkFil (orgFilBuffer ! unat orgFilBufPos) BkFilLoop st of
           None \<Rightarrow> None
         | Some (Mapped st') \<Rightarrow>
             mapChunk cfg bkFil orgFilBuffer currentChunk (orgFilBufPos + 1) st'
         | Some (Aborted e out) \<Rightarrow> Some (Inl (e, out))
         | Some (Exhausted st') \<Rightarrow>
             mapChunk cfg bkFil orgFilBuffer currentChunk orgFilBufPos st')
      else Some (Inr st))"

declare mapChunk.simps [code]

text \<open>The loop \<open>for (; bytesRemaining; bytesRemaining -= currentChunk)\<close> (line 225);
  \<open>orgFil\<close> is what is left to read of the original file.\<close>

partial_function (option) mapChunks ::
  "mapConfig \<Rightarrow> byte_t list \<Rightarrow> nat \<Rightarrow> nat \<Rightarrow> byte_t list \<Rightarrow> mapState
     \<Rightarrow> ((error \<times> byte_t list) + mapState) option" where
  "mapChunks cfg bkFil bytesRemaining currentChunk orgFil st =
     (if bytesRemaining \<noteq> 0 then
        (let currentChunk' = (if currentChunk > bytesRemaining then bytesRemaining else currentChunk) in
         if length orgFil < currentChunk' then Some (Inl (EBADMSG, bkCd st))
         else
           (case mapChunk cfg bkFil (take currentChunk' orgFil) currentChunk' 0 st of
              None \<Rightarrow> None
            | Some (Inl e) \<Rightarrow> Some (Inl e)
            | Some (Inr st') \<Rightarrow>
                mapChunks cfg bkFil (bytesRemaining - currentChunk') currentChunk'
                  (drop currentChunk' orgFil) st'))
      else Some (Inr st))"

declare mapChunks.simps [code]

text \<open>\<open>mapOffsets\<close>: the buffer of the book file is filled, then the chunks are mapped.\<close>

definition mapOffsets ::
  "mapConfig \<Rightarrow> nat \<Rightarrow> nat \<Rightarrow> byte_t list \<Rightarrow> byte_t list \<Rightarrow> mapState
     \<Rightarrow> ((error \<times> byte_t list) + mapState) option" where
  "mapOffsets cfg orgFilSize orgFilBufSize bkFil orgFil st =
     (case freadBkFil bkFil (bkFilBufSize cfg) st of
        Inl e \<Rightarrow> Some (Inl (e, bkCd st))
      | Inr st' \<Rightarrow> mapChunks cfg bkFil orgFilSize orgFilBufSize orgFil st')"

text \<open>The mapping branch of \<open>main\<close> (lines 757 to 866): the sizes of the two files, the
  buffer sizes (given with \<open>-s\<close>, or \<open>DEFAULT_BUFFER_SIZE\<close>) cut down to the file sizes, the
  part of the book file that is used, the digest filled with \<open>-1\<close>, and the call of
  \<open>mapOffsets\<close>. The remainder by a buffer size of 0 stops the program. Opening the files,
  the probe of the available memory and the allocation of the buffers are left out.\<close>

definition DEFAULT_BUFFER_SIZE :: nat where
  "DEFAULT_BUFFER_SIZE = 1024 * 1024"

definition initialState :: mapState where
  "initialState =
     \<lparr>bkFilOff = 0, bkFilBuffer = [], bkFilPos = 0, bkFilBufPos = 0,
      offsetDigest = (\<lambda>i. - 1), repeatsFound = 0, bkCd = []\<rparr>"

definition mainMapConfig :: "bool \<Rightarrow> bool \<Rightarrow> nat option \<Rightarrow> nat \<Rightarrow> error + mapConfig" where
  "mainMapConfig duplicates reset bkFilBufSizeGiven bkFilSize0 =
     (let bkFilBufSize0 = (case bkFilBufSizeGiven of None \<Rightarrow> DEFAULT_BUFFER_SIZE | Some n \<Rightarrow> n);
          bkFilBufSize1 = (if bkFilSize0 < bkFilBufSize0 then bkFilSize0 else bkFilBufSize0)
      in if bkFilBufSize1 = 0 then Inl SIGFPE
         else Inr \<lparr>allowDuplicates = duplicates, resetAtEndOfBuf = reset,
                   bkFilSize = bkFilSize0 - bkFilSize0 mod bkFilBufSize1,
                   bkFilBufSize = bkFilBufSize1\<rparr>)"

definition mainOrgFilBufSize :: "nat option \<Rightarrow> nat \<Rightarrow> nat" where
  "mainOrgFilBufSize orgFilBufSizeGiven orgFilSize0 =
     (let orgFilBufSize0 = (case orgFilBufSizeGiven of None \<Rightarrow> DEFAULT_BUFFER_SIZE | Some n \<Rightarrow> n)
      in if orgFilBufSize0 > orgFilSize0 then orgFilSize0 else orgFilBufSize0)"

definition mainMap ::
  "bool \<Rightarrow> bool \<Rightarrow> nat option \<Rightarrow> nat option \<Rightarrow> byte_t list \<Rightarrow> byte_t list
     \<Rightarrow> ((error \<times> byte_t list) + mapState) option" where
  "mainMap duplicates reset bkFilBufSizeGiven orgFilBufSizeGiven bkFil orgFil =
     (case mainMapConfig duplicates reset bkFilBufSizeGiven (length bkFil) of
        Inl e \<Rightarrow> Some (Inl (e, []))
      | Inr cfg \<Rightarrow>
          mapOffsets cfg (length orgFil) (mainOrgFilBufSize orgFilBufSizeGiven (length orgFil))
            bkFil orgFil initialState)"

section \<open>extractBytes\<close>

text \<open>\<open>fseek(bkFil, offset, SEEK_SET)\<close> followed by \<open>fgetc(bkFil)\<close>: the byte at the offset,
  or \<open>EOF\<close> at and after the end of the book file. Neither result is checked by the code.
  The offset is a \<open>uint32_t\<close> passed as a 64-bit \<open>long\<close>, so it is never negative.\<close>

definition EOF :: int where
  "EOF = - 1"

definition fgetcAt :: "byte_t list \<Rightarrow> nat \<Rightarrow> int" where
  "fgetcAt bkFil pos = (if pos < length bkFil then uint (bkFil ! pos) else EOF)"

text \<open>The loop \<open>for (extrFilBufPos = 0; extrFilBufPos < currentChunk / sizeof(byteOffset);
  extrFilBufPos++)\<close> (line 369); the result of \<open>fgetc\<close> is stored as a \<open>byte_t\<close> in
  \<open>extrFilBuffer\<close>, the list of the \<open>extrFilBufSize\<close> bytes that were allocated.\<close>

partial_function (option) extractChunk ::
  "byte_t list \<Rightarrow> byte_t list \<Rightarrow> nat \<Rightarrow> uoffset_t \<Rightarrow> byte_t list
     \<Rightarrow> (error + byte_t list) option" where
  "extractChunk bkFil bkCdBuffer currentChunk extrFilBufPos extrFilBuffer =
     (if unat extrFilBufPos < currentChunk div 4 then
        (if unat extrFilBufPos < length extrFilBuffer then
           extractChunk bkFil bkCdBuffer currentChunk (extrFilBufPos + 1)
             (extrFilBuffer[unat extrFilBufPos :=
                of_int (fgetcAt bkFil (unat (bkCdBufferAt bkCdBuffer (unat extrFilBufPos))))])
         else Some (Inl OutOfBounds))
      else Some (Inr extrFilBuffer))"

declare extractChunk.simps [code]

text \<open>The loop \<open>while (1)\<close> of \<open>extractBytes\<close>: \<open>bkCdFil\<close> is what is left to read of the
  book code, \<open>extrFil\<close> the bytes written so far. Each turn reads up to \<open>bkCdBufSize\<close> bytes
  and writes the first \<open>currentChunk / sizeof(byteOffset)\<close> bytes of \<open>extrFilBuffer\<close>. A read
  shorter than \<open>bkCdBufSize\<close> has met the end of the file and ends the loop after its chunk is
  written.\<close>

partial_function (option) extractBytes ::
  "nat \<Rightarrow> byte_t list \<Rightarrow> byte_t list \<Rightarrow> byte_t list \<Rightarrow> byte_t list
     \<Rightarrow> ((error \<times> byte_t list) + byte_t list) option" where
  "extractBytes bkCdBufSize bkFil bkCdFil extrFilBuffer extrFil =
     (let bkCdBuffer = take bkCdBufSize bkCdFil; currentChunk = length bkCdBuffer in
      case extractChunk bkFil bkCdBuffer currentChunk 0 extrFilBuffer of
        None \<Rightarrow> None
      | Some (Inl e) \<Rightarrow> Some (Inl (e, extrFil))
      | Some (Inr extrFilBuffer') \<Rightarrow>
          (let extrFil' = extrFil @ take (currentChunk div 4) extrFilBuffer' in
           if currentChunk < bkCdBufSize then Some (Inr extrFil')
           else extractBytes bkCdBufSize bkFil (drop bkCdBufSize bkCdFil) extrFilBuffer' extrFil'))"

declare extractBytes.simps [code]

text \<open>The extracting branch of \<open>main\<close> (lines 911 to 960): the sizes of the two buffers.
  Line 911 takes the size of the book file for \<open>bkCdSize\<close>. A size of the book code buffer
  given with \<open>-s\<close> was divided by \<open>sizeof(byteOffset)\<close> by \<open>parseOptions\<close> (line 609). The
  bytes of the buffer that \<open>malloc\<close> returns are not determined; they are \<open>0\<close> here, and each
  is stored to before it is written out.\<close>

definition mainExtractBufSize :: "bool \<Rightarrow> nat option \<Rightarrow> nat \<Rightarrow> nat" where
  "mainExtractBufSize readFromStdin bkCdBufSizeGiven bkFilSize0 =
     (let bkCdBufSize0 = (case bkCdBufSizeGiven of None \<Rightarrow> DEFAULT_BUFFER_SIZE | Some n \<Rightarrow> n div 4)
      in if \<not> readFromStdin
         then (if bkCdBufSize0 > bkFilSize0 then bkFilSize0 else bkCdBufSize0) * 4
         else bkCdBufSize0)"

definition mainExtract ::
  "bool \<Rightarrow> nat option \<Rightarrow> nat option \<Rightarrow> byte_t list \<Rightarrow> byte_t list
     \<Rightarrow> ((error \<times> byte_t list) + byte_t list) option" where
  "mainExtract readFromStdin bkCdBufSizeGiven extrFilBufSizeGiven bkFil bkCdFil =
     extractBytes (mainExtractBufSize readFromStdin bkCdBufSizeGiven (length bkFil)) bkFil bkCdFil
       (replicate (case extrFilBufSizeGiven of None \<Rightarrow> DEFAULT_BUFFER_SIZE | Some n \<Rightarrow> n) 0) []"

section \<open>Auxiliary notions\<close>

text \<open>The book file seen by a scan, between two steps of its loops: the sizes are those that
  \<open>main\<close> sets up for a book file shorter than \<open>2 ^ 32\<close> bytes, the buffer holds the window
  of the book file that starts at \<open>bkFilPos\<close>, the stream stands behind that window, and every
  digest entry other than \<open>-1\<close> is an offset of its byte value in the used part of the file.\<close>

definition bkInv :: "mapConfig \<Rightarrow> byte_t list \<Rightarrow> mapState \<Rightarrow> bool" where
  "bkInv cfg bkFil st \<longleftrightarrow>
     0 < bkFilBufSize cfg \<and> bkFilBufSize cfg dvd bkFilSize cfg \<and> 0 < bkFilSize cfg \<and>
     bkFilSize cfg \<le> length bkFil \<and> length bkFil < 2 ^ 32 \<and>
     bkFilBufSize cfg dvd unat (bkFilPos st) \<and> unat (bkFilPos st) < bkFilSize cfg \<and>
     bkFilOff st = unat (bkFilPos st) + bkFilBufSize cfg \<and>
     bkFilBuffer st = take (bkFilBufSize cfg) (drop (unat (bkFilPos st)) bkFil) \<and>
     (\<forall>x. offsetDigest st x \<noteq> - 1 \<longrightarrow>
          unat (offsetDigest st x) < bkFilSize cfg \<and> bkFil ! unat (offsetDigest st x) = x)"

text \<open>What a finished scan for the byte \<open>b\<close> from the state \<open>st\<close> has done.\<close>

definition scanPost :: "mapConfig \<Rightarrow> byte_t list \<Rightarrow> byte_t \<Rightarrow> mapState \<Rightarrow> scanResult \<Rightarrow> bool" where
  "scanPost cfg bkFil b st r =
     (case r of
        Mapped st' \<Rightarrow>
          bkInv cfg bkFil st' \<and> unat (bkFilBufPos st') < bkFilBufSize cfg \<and> repeatsFound st' = 0 \<and>
          (\<exists>w. bkCd st' = bkCd st @ offsetBytes w \<and> unat w < bkFilSize cfg \<and> bkFil ! unat w = b \<and>
                offsetDigest st' = (offsetDigest st)(b := w) \<and>
                (\<not> allowDuplicates cfg \<longrightarrow> w \<noteq> offsetDigest st b))
      | Aborted e out \<Rightarrow> e = NotEnoughEntropy \<and> out = bkCd st \<and> offsetDigest st b = - 1
      | Exhausted st' \<Rightarrow> False)"

text \<open>The part of \<open>scanPost\<close> that holds for a scan from any state.\<close>

definition scanWrote :: "mapConfig \<Rightarrow> byte_t \<Rightarrow> mapState \<Rightarrow> scanResult \<Rightarrow> bool" where
  "scanWrote cfg b st r =
     (case r of
        Mapped st' \<Rightarrow>
          repeatsFound st' = 0 \<and>
          (\<exists>w. bkCd st' = bkCd st @ offsetBytes w \<and> offsetDigest st' = (offsetDigest st)(b := w) \<and>
                (\<not> allowDuplicates cfg \<longrightarrow> w \<noteq> offsetDigest st b))
      | Aborted e out \<Rightarrow> out = bkCd st
      | Exhausted st' \<Rightarrow> True)"

text \<open>The bytes written to the book code when a run of \<open>mapOffsets\<close> ended, by \<open>exit\<close> or
  by its \<open>return\<close>.\<close>

definition written :: "(error \<times> byte_t list) + mapState \<Rightarrow> byte_t list" where
  "written res = (case res of Inl (e, out) \<Rightarrow> out | Inr st \<Rightarrow> bkCd st)"

text \<open>Each offset of the list differs from the one that precedes it for the same byte value,
  the digest \<open>d\<close> holding the offsets that precede the list.\<close>

fun noRepeat :: "(byte_t \<Rightarrow> offset_t) \<Rightarrow> byte_t list \<Rightarrow> uoffset_t list \<Rightarrow> bool" where
  "noRepeat d (x # xs) (w # ws) = (w \<noteq> d x \<and> noRepeat (d(x := w)) xs ws)"
| "noRepeat d xs ws = True"

text \<open>The chunk loops seen byte by byte: the scans for the bytes of the original file, one
  after the other. \<open>mapChunk\<close> and \<open>mapChunks\<close> are shown below to compute this.\<close>

fun mapBytes ::
  "mapConfig \<Rightarrow> byte_t list \<Rightarrow> byte_t list \<Rightarrow> mapState
     \<Rightarrow> ((error \<times> byte_t list) + mapState) option" where
  "mapBytes cfg bkFil [] st = Some (Inr st)"
| "mapBytes cfg bkFil (b # bs) st =
     (case scanBkFil cfg bkFil b BkFilLoop st of
        None \<Rightarrow> None
      | Some (Mapped st') \<Rightarrow> mapBytes cfg bkFil bs st'
      | Some (Aborted e out) \<Rightarrow> Some (Inl (e, out))
      | Some (Exhausted st') \<Rightarrow> None)"

section \<open>Offsets and bytes\<close>

lemma length_offsetBytes: "length (offsetBytes w) = 4"
  by (simp add: offsetBytes_def)

lemma bytesOffset_offsetBytes: "bytesOffset (offsetBytes w) = w"
  unfolding bytesOffset_def offsetBytes_def
proof (rule bit_word_eqI)
  fix n :: nat
  assume n: "n < LENGTH(32)"
  have a: "8 \<le> n \<Longrightarrow> 8 + (n - 8) = n" and b: "16 \<le> n \<Longrightarrow> 16 + (n - 16) = n"
    and c: "24 \<le> n \<Longrightarrow> 24 + (n - 24) = n" by simp_all
  consider "n < 8" | "8 \<le> n" "n < 16" | "16 \<le> n" "n < 24" | "24 \<le> n" "n < 32"
    using n by fastforce
  then show "bit (ucast (([ucast w, ucast (drop_bit 8 w), ucast (drop_bit 16 w), ucast (drop_bit 24 w)] :: byte_t list) ! 0) OR
             push_bit 8 (ucast ([ucast w, ucast (drop_bit 8 w), ucast (drop_bit 16 w), ucast (drop_bit 24 w) :: byte_t] ! 1)) OR
             push_bit 16 (ucast ([ucast w, ucast (drop_bit 8 w), ucast (drop_bit 16 w), ucast (drop_bit 24 w) :: byte_t] ! 2)) OR
             push_bit 24 (ucast ([ucast w, ucast (drop_bit 8 w), ucast (drop_bit 16 w), ucast (drop_bit 24 w) :: byte_t] ! 3)) :: uoffset_t) n
           = bit w n"
    by cases (auto simp add: bit_simps a b c)
qed

lemma bkCdBufferAt_concat:
  "i < length os \<Longrightarrow> bkCdBufferAt (concat (map offsetBytes os) @ rest) i = os ! i"
proof (induction os arbitrary: i)
  case Nil then show ?case by simp
next
  case (Cons a os)
  show ?case
  proof (cases i)
    case 0
    then show ?thesis
      by (simp add: bkCdBufferAt_def length_offsetBytes bytesOffset_offsetBytes)
  next
    case (Suc j)
    with Cons.prems have "j < length os" by simp
    from Cons.IH[OF this] show ?thesis using Suc
      by (simp add: bkCdBufferAt_def length_offsetBytes)
  qed
qed

lemma length_concat_offsetBytes: "length (concat (map offsetBytes ws)) = 4 * length ws"
  by (induction ws) (simp_all add: length_offsetBytes)

lemma bkCdBufferAt_take:
  "4 * i + 4 \<le> n \<Longrightarrow> bkCdBufferAt (take n code) i = bkCdBufferAt code i"
  by (simp add: bkCdBufferAt_def drop_take min_def)

lemma bkCdBufferAt_drop:
  "4 dvd n \<Longrightarrow> bkCdBufferAt (drop n code) i = bkCdBufferAt code (i + n div 4)"
proof -
  assume "4 dvd n"
  then have "4 * (i + n div 4) = 4 * i + n" by (simp add: distrib_left)
  then show ?thesis by (simp add: bkCdBufferAt_def)
qed

lemma of_int_fgetcAt: "pos < length bkFil \<Longrightarrow> (of_int (fgetcAt bkFil pos) :: byte_t) = bkFil ! pos"
  by (simp add: fgetcAt_def)

lemma of_int_fgetcAt_EOF: "length bkFil \<le> pos \<Longrightarrow> (of_int (fgetcAt bkFil pos) :: byte_t) = 255"
  by (simp add: fgetcAt_def EOF_def)

section \<open>The loops of extractBytes\<close>

lemma extractChunk_run:
  assumes "currentChunk div 4 < 2 ^ 32" "currentChunk div 4 \<le> length buf"
    "unat pos \<le> currentChunk div 4"
  shows "extractChunk bkFil cb currentChunk pos buf =
     Some (Inr (take (unat pos) buf @
       map (\<lambda>i. of_int (fgetcAt bkFil (unat (bkCdBufferAt cb i)))) [unat pos..<currentChunk div 4] @
       drop (currentChunk div 4) buf))"
  using assms
proof (induction "currentChunk div 4 - unat pos" arbitrary: pos buf)
  case 0
  then have "unat pos = currentChunk div 4" by simp
  then show ?case
    by (subst extractChunk.simps) simp
next
  case (Suc k)
  let ?n = "currentChunk div 4"
  let ?v = "of_int (fgetcAt bkFil (unat (bkCdBufferAt cb (unat pos)))) :: byte_t"
  from Suc.hyps have lt: "unat pos < ?n" by simp
  with Suc.prems have inb: "unat pos < length buf" by simp
  have up: "unat (pos + 1) = unat pos + 1"
    using lt Suc.prems(1) by (simp add: unat_word_ariths)
  have k: "k = ?n - unat (pos + 1)" using Suc.hyps up by simp
  have IH: "extractChunk bkFil cb currentChunk (pos + 1) (buf[unat pos := ?v]) =
     Some (Inr (take (unat (pos + 1)) (buf[unat pos := ?v]) @
       map (\<lambda>i. of_int (fgetcAt bkFil (unat (bkCdBufferAt cb i)))) [unat (pos + 1)..<?n] @
       drop ?n (buf[unat pos := ?v])))"
    by (rule Suc.hyps(1)[OF k]) (use Suc.prems lt up in simp_all)
  have "take (Suc (unat pos)) (buf[unat pos := ?v]) =
        take (unat pos) (buf[unat pos := ?v]) @ [buf[unat pos := ?v] ! unat pos]"
    by (rule take_Suc_conv_app_nth) (simp add: inb)
  then have t: "take (Suc (unat pos)) (buf[unat pos := ?v]) = take (unat pos) buf @ [?v]"
    using inb by simp
  have d: "drop ?n (buf[unat pos := ?v]) = drop ?n buf"
    using lt by simp
  have u: "[unat pos..<?n] = unat pos # [unat pos + 1..<?n]"
    using lt by (simp add: upt_conv_Cons)
  show ?case
    by (subst extractChunk.simps) (simp add: lt inb IH up t d u)
qed

lemma extractBytes_run:
  assumes "0 < sz" "4 dvd sz" "sz div 4 < 2 ^ 32" "sz div 4 \<le> length buf"
  shows "extractBytes sz bkFil code buf out =
     Some (Inr (out @ map (\<lambda>i. of_int (fgetcAt bkFil (unat (bkCdBufferAt code i))))
                        [0..<length code div 4]))"
  using assms
proof (induction "length code" arbitrary: code buf out rule: less_induct)
  case less
  let ?f = "\<lambda>c i. of_int (fgetcAt bkFil (unat (bkCdBufferAt c i))) :: byte_t"
  let ?chunk = "take sz code"
  let ?cc = "length ?chunk"
  have cc: "?cc div 4 \<le> sz div 4" by (simp add: div_le_mono)
  have run: "extractChunk bkFil ?chunk ?cc 0 buf =
     Some (Inr (map (?f ?chunk) [0..<?cc div 4] @ drop (?cc div 4) buf))"
    using extractChunk_run[of ?cc buf 0 bkFil ?chunk] cc less.prems by simp
  have same: "map (?f ?chunk) [0..<?cc div 4] = map (?f code) [0..<?cc div 4]"
  proof (rule map_cong[OF refl])
    fix i assume "i \<in> set [0..<?cc div 4]"
    then have "i < ?cc div 4" by simp
    then have "4 * i + 4 \<le> ?cc" by presburger
    then have "4 * i + 4 \<le> sz" by simp
    then show "?f ?chunk i = ?f code i" by (simp only: bkCdBufferAt_take)
  qed
  have tk: "take (?cc div 4) (map (?f code) [0..<?cc div 4] @ drop (?cc div 4) buf)
            = map (?f code) [0..<?cc div 4]" by simp
  show ?case
  proof (cases "length code < sz")
    case True
    then have tk: "take sz code = code" by simp
    have run': "extractChunk bkFil code (length code) 0 buf =
       Some (Inr (map (?f code) [0..<length code div 4] @ drop (length code div 4) buf))"
      using run same unfolding tk by simp
    from True show ?thesis
      by (subst extractBytes.simps) (simp add: run' Let_def)
  next
    case False
    then have ccsz: "?cc = sz" by simp
    let ?buf' = "map (?f code) [0..<sz div 4] @ drop (sz div 4) buf"
    have len: "length (drop sz code) < length code" using False less.prems(1) by simp
    have lb: "sz div 4 \<le> length ?buf'" using less.prems(4) by simp
    have IH: "extractBytes sz bkFil (drop sz code) ?buf' (out @ map (?f code) [0..<sz div 4]) =
       Some (Inr ((out @ map (?f code) [0..<sz div 4]) @
          map (?f (drop sz code)) [0..<length (drop sz code) div 4]))"
      by (rule less.hyps[OF len less.prems(1,2,3) lb])
    have le: "sz div 4 \<le> length code div 4" using False by (simp add: div_le_mono)
    have sh: "map (?f (drop sz code)) [0..<length (drop sz code) div 4] =
              map (?f code) [sz div 4..<length code div 4]"
    proof -
      have 1: "length (drop sz code) div 4 = length code div 4 - sz div 4"
        using less.prems(2) False by (auto elim!: dvdE)
      have 2: "[sz div 4..<length code div 4] = map (\<lambda>i. i + sz div 4) [0..<length code div 4 - sz div 4]"
        using le by (simp add: map_add_upt)
      show ?thesis unfolding 1 2 using less.prems(2)
        by (simp add: bkCdBufferAt_drop o_def)
    qed
    have app: "map (?f code) [0..<sz div 4] @ map (?f code) [sz div 4..<length code div 4]
             = map (?f code) [0..<length code div 4]"
    proof -
      have "[0..<length code div 4] = [0..<sz div 4] @ [sz div 4..<length code div 4]"
        using le upt_add_eq_append[of 0 "sz div 4" "length code div 4 - sz div 4"] by simp
      then show ?thesis by simp
    qed
    have run': "extractChunk bkFil (take sz code) sz 0 buf = Some (Inr ?buf')"
      using run same unfolding ccsz by simp
    have "extractBytes sz bkFil code buf out =
          extractBytes sz bkFil (drop sz code) ?buf' (out @ map (?f code) [0..<sz div 4])"
      using False by (subst extractBytes.simps) (simp add: run' Let_def ccsz)
    then show ?thesis
      unfolding IH sh using app by simp
  qed
qed

text \<open>The chunks are whole 4-byte units when the book code is read from a file: the branch
  of \<open>main\<close> multiplies the buffer size by \<open>sizeof(byteOffset)\<close>. For a book code read from
  the standard input it does not, and with \<open>-s book_code_buffer=24b\<close> each chunk has 6 bytes:
  one unit is extracted from it and its last 2 bytes are dropped, so the units that follow are
  misread.\<close>

lemma mainExtract_stdin_chunks:
  "mainExtract False (Some 24) (Some 3) [97, 98, 99] [0, 0, 0, 0, 1, 0, 0, 0, 2, 0, 0, 0]
     = Some (Inr [97, 98, 99]) \<and>
   mainExtract True (Some 24) (Some 3) [97, 98, 99] [0, 0, 0, 0, 1, 0, 0, 0, 2, 0, 0, 0]
     = Some (Inr [97, 255])"
proof -
  have r: "replicate 3 (0 :: byte_t) = [0, 0, 0]" by (simp add: numeral_3_eq_3)
  have u: "[0, 0, 0 :: byte_t][2 := x] = [0, 0, x]" "[a, 0, 0 :: byte_t][2 := x] = [a, 0, x]"
    "[a, c, 0 :: byte_t][2 := x] = [a, c, x]" for a c x
    by (simp_all add: numeral_2_eq_2)
  show ?thesis
    by (simp add: mainExtract_def mainExtractBufSize_def extractBytes.simps extractChunk.simps
      bkCdBufferAt_def bytesOffset_def fgetcAt_def EOF_def Let_def r u)
qed

section \<open>The scan of the book file\<close>

lemma dvd_next_multiple:
  fixes w :: nat
  assumes "w dvd a" and "w dvd s" and "a < s"
  shows "a + w \<le> s"
proof -
  have "w dvd s - a" using assms(1,2) by (rule dvd_diff_nat[rotated])
  moreover have "0 < s - a" using assms(3) by simp
  ultimately have "w \<le> s - a" by (rule dvd_imp_le)
  with assms(3) show ?thesis by simp
qed

lemma bkInv_window:
  assumes "bkInv cfg bkFil st"
  shows "unat (bkFilPos st) + bkFilBufSize cfg \<le> bkFilSize cfg"
  using assms by (intro dvd_next_multiple) (simp_all add: bkInv_def)

lemma bkInv_cursor [simp]:
  "bkInv cfg bkFil (st\<lparr>bkFilBufPos := p\<rparr>) = bkInv cfg bkFil st"
  "bkInv cfg bkFil (st\<lparr>repeatsFound := n\<rparr>) = bkInv cfg bkFil st"
  by (simp_all add: bkInv_def)

lemma bkInv_buffer_nth:
  assumes inv: "bkInv cfg bkFil st" and cur: "unat (bkFilBufPos st) < bkFilBufSize cfg"
  shows "unat (bkFilBufPos st + bkFilPos st) = unat (bkFilPos st) + unat (bkFilBufPos st)"
    and "unat (bkFilBufPos st + bkFilPos st) < bkFilSize cfg"
    and "bkFilBuffer st ! unat (bkFilBufPos st) = bkFil ! unat (bkFilBufPos st + bkFilPos st)"
proof -
  have win: "unat (bkFilPos st) + bkFilBufSize cfg \<le> bkFilSize cfg" by (rule bkInv_window[OF inv])
  from inv have S: "bkFilSize cfg \<le> length bkFil" "length bkFil < 2 ^ 32"
    and buf: "bkFilBuffer st = take (bkFilBufSize cfg) (drop (unat (bkFilPos st)) bkFil)"
    by (simp_all add: bkInv_def)
  show un: "unat (bkFilBufPos st + bkFilPos st) = unat (bkFilPos st) + unat (bkFilBufPos st)"
    using win cur S by (simp add: unat_word_ariths)
  show "unat (bkFilBufPos st + bkFilPos st) < bkFilSize cfg"
    using un win cur by simp
  show "bkFilBuffer st ! unat (bkFilBufPos st) = bkFil ! unat (bkFilBufPos st + bkFilPos st)"
    using un win cur S by (simp add: buf)
qed

lemma bkInv_absent:
  assumes inv: "bkInv cfg bkFil st" and ab: "b \<notin> set (take (bkFilSize cfg) bkFil)"
  shows "offsetDigest st b = - 1"
proof (rule ccontr)
  assume "offsetDigest st b \<noteq> - 1"
  with inv have i: "unat (offsetDigest st b) < bkFilSize cfg" "bkFil ! unat (offsetDigest st b) = b"
    and S: "bkFilSize cfg \<le> length bkFil"
    by (simp_all add: bkInv_def)
  then have "take (bkFilSize cfg) bkFil ! unat (offsetDigest st b) = b" by simp
  moreover have "unat (offsetDigest st b) < length (take (bkFilSize cfg) bkFil)" using i S by simp
  ultimately have "b \<in> set (take (bkFilSize cfg) bkFil)" by (metis nth_mem)
  with ab show False by simp
qed

lemma refillBuffer_Inr:
  "refillBuffer cfg bkFil b st = Inr st' \<Longrightarrow>
     bkCd st' = bkCd st \<and> offsetDigest st' = offsetDigest st \<and> repeatsFound st' = repeatsFound st"
  by (auto simp add: refillBuffer_def freadBkFil_def Let_def split: if_splits)

lemma refillBuffer_Inl:
  "refillBuffer cfg bkFil b st = Inl (e, out) \<Longrightarrow> out = bkCd st"
  by (auto simp add: refillBuffer_def freadBkFil_def Let_def split: if_splits)

lemma refillBuffer_cases:
  assumes inv: "bkInv cfg bkFil st"
  shows "(refillBuffer cfg bkFil b st = Inl (NotEnoughEntropy, bkCd st) \<and> offsetDigest st b = - 1) \<or>
         (\<exists>st'. refillBuffer cfg bkFil b st = Inr st' \<and> bkInv cfg bkFil st' \<and> bkFilBufPos st' = 0 \<and>
                offsetDigest st' = offsetDigest st \<and> bkCd st' = bkCd st \<and>
                repeatsFound st' = repeatsFound st \<and>
                (offsetDigest st b \<noteq> - 1 \<or>
                 unat (bkFilPos st') = unat (bkFilPos st) + bkFilBufSize cfg))"
proof -
  let ?W = "bkFilBufSize cfg" and ?S = "bkFilSize cfg"
  from inv have W: "0 < ?W" and S: "0 < ?S" "?S \<le> length bkFil" "length bkFil < 2 ^ 32"
    and dv: "?W dvd ?S" "?W dvd unat (bkFilPos st)"
    and off: "bkFilOff st = unat (bkFilPos st) + ?W"
    and dig: "\<forall>x. offsetDigest st x \<noteq> - 1 \<longrightarrow>
          unat (offsetDigest st x) < ?S \<and> bkFil ! unat (offsetDigest st x) = x"
    by (simp_all add: bkInv_def)
  have win: "unat (bkFilPos st) + ?W \<le> ?S" by (rule bkInv_window[OF inv])
  have WS: "?W \<le> ?S" using win by simp
  have un: "unat (bkFilPos st + of_nat ?W) = unat (bkFilPos st) + ?W"
    using win S by (simp add: unat_word_ariths unat_of_nat)
  show ?thesis
  proof (cases "unat (bkFilPos st) + ?W \<ge> sizeMinus1 ?S \<or> resetAtEndOfBuf cfg")
    case True
    show ?thesis
    proof (cases "offsetDigest st b = - 1")
      case d: True
      with True show ?thesis by (simp add: refillBuffer_def Let_def un)
    next
      case d: False
      let ?st' = "st\<lparr>bkFilPos := 0, bkFilBufPos := 0, bkFilOff := ?W, bkFilBuffer := take ?W bkFil\<rparr>"
      have "refillBuffer cfg bkFil b st = Inr ?st'"
        using True d WS S by (simp add: refillBuffer_def Let_def un freadBkFil_def)
      moreover have "bkInv cfg bkFil ?st'"
        using W S dv dig by (simp add: bkInv_def)
      ultimately show ?thesis using d by simp
    qed
  next
    case False
    then have "\<not> ?S - 1 \<le> unat (bkFilPos st) + ?W" using S by (simp add: sizeMinus1_def)
    then have lt: "unat (bkFilPos st) + ?W < ?S" by arith
    have fit: "unat (bkFilPos st) + ?W + ?W \<le> ?S"
      using dv lt by (intro dvd_next_multiple) simp_all
    let ?st' = "st\<lparr>bkFilPos := bkFilPos st + of_nat ?W, bkFilBufPos := 0,
                   bkFilBuffer := take ?W (drop (unat (bkFilPos st) + ?W) bkFil),
                   bkFilOff := unat (bkFilPos st) + ?W + ?W\<rparr>"
    have "refillBuffer cfg bkFil b st = Inr ?st'"
      using False fit S off by (simp add: refillBuffer_def Let_def un freadBkFil_def)
    moreover have "bkInv cfg bkFil ?st'"
      using W S dv dig lt by (simp add: bkInv_def un)
    ultimately show ?thesis using un by simp
  qed
qed

lemma scanBkFil_mismatch_last:
  assumes "unat (bkFilBufPos st) < bkFilBufSize cfg" and "b \<noteq> bkFilBuffer st ! unat (bkFilBufPos st)"
    and "unat (bkFilBufPos st) = sizeMinus1 (bkFilBufSize cfg)"
  shows "scanBkFil cfg bkFil b BufLoop st =
     (case refillBuffer cfg bkFil b st of
        Inl (e, out) \<Rightarrow> Some (Aborted e out)
      | Inr st' \<Rightarrow> scanBkFil cfg bkFil b BufLoop (st'\<lparr>bkFilBufPos := bkFilBufPos st' + 1\<rparr>))"
  using assms by (subst scanBkFil.simps) (simp add: Let_def)

lemma scanBkFil_mismatch_next:
  assumes "unat (bkFilBufPos st) < bkFilBufSize cfg" and "b \<noteq> bkFilBuffer st ! unat (bkFilBufPos st)"
    and "unat (bkFilBufPos st) \<noteq> sizeMinus1 (bkFilBufSize cfg)"
  shows "scanBkFil cfg bkFil b BufLoop st =
     scanBkFil cfg bkFil b BufLoop (st\<lparr>bkFilBufPos := bkFilBufPos st + 1\<rparr>)"
  using assms by (subst scanBkFil.simps) (simp add: Let_def)

lemma scanBkFil_repeat_refill:
  assumes "\<not> allowDuplicates cfg" and "unat (bkFilBufPos st) < bkFilBufSize cfg"
    and "bkFilBuffer st ! unat (bkFilBufPos st) = b"
    and "offsetDigest st b = bkFilBufPos st + bkFilPos st" and "2 \<le> repeatsFound st"
  shows "scanBkFil cfg bkFil b BufLoop st =
     (case refillBuffer cfg bkFil b st of
        Inl (e, out) \<Rightarrow> Some (Aborted e out)
      | Inr st' \<Rightarrow> scanBkFil cfg bkFil b BufLoop (st'\<lparr>bkFilBufPos := bkFilBufPos st' + 1\<rparr>))"
  using assms by (subst scanBkFil.simps) (simp add: Let_def)

lemma scanWrote_cong:
  "bkCd st2 = bkCd st \<Longrightarrow> offsetDigest st2 = offsetDigest st \<Longrightarrow>
   scanWrote cfg b st2 r = scanWrote cfg b st r"
  by (simp add: scanWrote_def split: scanResult.splits)

lemma scanBkFil_wrote_aux:
  assumes "scanBkFil cfg bkFil b l st = Some r"
  shows "scanWrote cfg b st r"
proof (rule scanBkFil.raw_induct
    [where P = "\<lambda>cfg bkFil b l st r. scanWrote cfg b st r", OF _ assms], goal_cases)
  case (1 scan cfg bkFil b l st r)
  note IH = 1(1) and eq = 1(2)
  have cont: "scanWrote cfg b st r"
    if "scan cfg bkFil b l' st2 = Some r" "bkCd st2 = bkCd st"
      "offsetDigest st2 = offsetDigest st" for l' st2
    using IH[OF that(1)] scanWrote_cong[OF that(2,3)] by simp
  have refill: "scanWrote cfg b st r"
    if "(case refillBuffer cfg bkFil b st of
           Inl (e, out) \<Rightarrow> Some (Aborted e out)
         | Inr st' \<Rightarrow> scan cfg bkFil b BufLoop (st'\<lparr>bkFilBufPos := bkFilBufPos st' + 1\<rparr>)) = Some r"
  proof (cases "refillBuffer cfg bkFil b st")
    case (Inl a)
    obtain e out where a: "a = (e, out)" by (cases a)
    from refillBuffer_Inl[OF Inl[unfolded a]] that Inl a show ?thesis
      by (auto simp add: scanWrote_def)
  next
    case (Inr st')
    with that have "scan cfg bkFil b BufLoop (st'\<lparr>bkFilBufPos := bkFilBufPos st' + 1\<rparr>) = Some r"
      by simp
    then show ?thesis by (rule cont) (use refillBuffer_Inr[OF Inr] in simp_all)
  qed
  show ?case
  proof (cases l)
    case BkFilLoop
    show ?thesis
    proof (cases "unat (bkFilPos st) < bkFilSize cfg")
      case True
      with eq BkFilLoop have "scan cfg bkFil b BufLoop st = Some r" by simp
      then show ?thesis by (rule cont) simp_all
    next
      case False
      with eq BkFilLoop show ?thesis by (auto simp add: scanWrote_def)
    qed
  next
    case BufLoop
    show ?thesis
    proof (cases "unat (bkFilBufPos st) < bkFilBufSize cfg")
      case False
      with eq BufLoop have "scan cfg bkFil b BkFilLoop st = Some r" by simp
      then show ?thesis by (rule cont) simp_all
    next
      case cur: True
      show ?thesis
      proof (cases "b = bkFilBuffer st ! unat (bkFilBufPos st)")
        case False
        show ?thesis
        proof (cases "unat (bkFilBufPos st) = sizeMinus1 (bkFilBufSize cfg)")
          case True
          with eq BufLoop cur False show ?thesis by (intro refill) (simp add: Let_def)
        next
          case nl: False
          with eq BufLoop cur False
          have "scan cfg bkFil b BufLoop (st\<lparr>bkFilBufPos := bkFilBufPos st + 1\<rparr>) = Some r"
            by (simp add: Let_def)
          then show ?thesis by (rule cont) simp_all
        qed
      next
        case match: True
        let ?w = "bkFilBufPos st + bkFilPos st"
        show ?thesis
        proof (cases "\<not> allowDuplicates cfg \<and> offsetDigest st b = ?w")
          case rep: True
          show ?thesis
          proof (cases "2 \<le> repeatsFound st")
            case True
            with eq BufLoop cur match rep show ?thesis by (intro refill) (simp add: Let_def)
          next
            case False
            with eq BufLoop cur match rep
            have "scan cfg bkFil b BufLoop
                    (st\<lparr>bkFilBufPos := (if unat (bkFilBufPos st) = sizeMinus1 (bkFilBufSize cfg)
                                           then 0 else bkFilBufPos st) + 1,
                        repeatsFound := repeatsFound st + 1\<rparr>) = Some r"
              by (simp add: Let_def)
            then show ?thesis by (rule cont) simp_all
          qed
        next
          case acc: False
          let ?st' = "st\<lparr>repeatsFound := 0, offsetDigest := (offsetDigest st)(b := ?w),
                        bkCd := bkCd st @ offsetBytes ?w\<rparr>"
          from eq BufLoop cur match acc have r: "r = Mapped ?st'"
            by (auto simp add: Let_def)
          show ?thesis
            using match acc unfolding r scanWrote_def by auto
        qed
      qed
    qed
  qed
qed

lemma scanPost_cong:
  "bkCd st2 = bkCd st \<Longrightarrow> offsetDigest st2 = offsetDigest st \<Longrightarrow>
   scanPost cfg bkFil b st2 r = scanPost cfg bkFil b st r"
  by (simp add: scanPost_def split: scanResult.splits)

lemma scanBkFil_post_aux:
  assumes "scanBkFil cfg bkFil b l st = Some r"
  shows "bkInv cfg bkFil st \<longrightarrow> scanPost cfg bkFil b st r"
proof (rule scanBkFil.raw_induct
    [where P = "\<lambda>cfg bkFil b l st r. bkInv cfg bkFil st \<longrightarrow> scanPost cfg bkFil b st r", OF _ assms],
    goal_cases)
  case (1 scan cfg bkFil b l st r)
  note IH = 1(1) and eq = 1(2)
  show ?case
  proof
    assume inv: "bkInv cfg bkFil st"
    have cont: "scanPost cfg bkFil b st r"
      if "scan cfg bkFil b l' st2 = Some r" "bkInv cfg bkFil st2" "bkCd st2 = bkCd st"
        "offsetDigest st2 = offsetDigest st" for l' st2
      using IH[OF that(1)] that(2) scanPost_cong[OF that(3,4)] by simp
    have refill: "scanPost cfg bkFil b st r"
      if "(case refillBuffer cfg bkFil b st of
             Inl (e, out) \<Rightarrow> Some (Aborted e out)
           | Inr st' \<Rightarrow> scan cfg bkFil b BufLoop (st'\<lparr>bkFilBufPos := bkFilBufPos st' + 1\<rparr>)) = Some r"
    proof -
      from refillBuffer_cases[OF inv, of b]
      consider "refillBuffer cfg bkFil b st = Inl (NotEnoughEntropy, bkCd st)" "offsetDigest st b = - 1"
        | st' where "refillBuffer cfg bkFil b st = Inr st'" "bkInv cfg bkFil st'"
            "offsetDigest st' = offsetDigest st" "bkCd st' = bkCd st"
        by blast
      then show ?thesis
      proof cases
        case 1
        with that show ?thesis by (auto simp add: scanPost_def)
      next
        case (2 st')
        note r = 2(1) and i = 2(2) and o = 2(3,4)
        from that r have "scan cfg bkFil b BufLoop (st'\<lparr>bkFilBufPos := bkFilBufPos st' + 1\<rparr>) = Some r"
          by simp
        then show ?thesis by (rule cont) (use i o in simp_all)
      qed
    qed
    show "scanPost cfg bkFil b st r"
    proof (cases l)
      case BkFilLoop
      show ?thesis
      proof (cases "unat (bkFilPos st) < bkFilSize cfg")
        case True
        with eq BkFilLoop have "scan cfg bkFil b BufLoop st = Some r" by simp
        then show ?thesis by (rule cont) (use inv in simp_all)
      next
        case False
        with inv show ?thesis by (simp add: bkInv_def)
      qed
    next
      case BufLoop
      show ?thesis
      proof (cases "unat (bkFilBufPos st) < bkFilBufSize cfg")
        case False
        with eq BufLoop have "scan cfg bkFil b BkFilLoop st = Some r" by simp
        then show ?thesis by (rule cont) (use inv in simp_all)
      next
        case cur: True
        note nth = bkInv_buffer_nth[OF inv cur]
        show ?thesis
        proof (cases "b = bkFilBuffer st ! unat (bkFilBufPos st)")
          case False
          show ?thesis
          proof (cases "unat (bkFilBufPos st) = sizeMinus1 (bkFilBufSize cfg)")
            case True
            with eq BufLoop cur False show ?thesis by (intro refill) (simp add: Let_def)
          next
            case nl: False
            with eq BufLoop cur False
            have "scan cfg bkFil b BufLoop (st\<lparr>bkFilBufPos := bkFilBufPos st + 1\<rparr>) = Some r"
              by (simp add: Let_def)
            then show ?thesis by (rule cont) (use inv in simp_all)
          qed
        next
          case match: True
          let ?w = "bkFilBufPos st + bkFilPos st"
          show ?thesis
          proof (cases "\<not> allowDuplicates cfg \<and> offsetDigest st b = ?w")
            case rep: True
            show ?thesis
            proof (cases "2 \<le> repeatsFound st")
              case True
              with eq BufLoop cur match rep show ?thesis by (intro refill) (simp add: Let_def)
            next
              case False
              with eq BufLoop cur match rep
              have "scan cfg bkFil b BufLoop
                      (st\<lparr>bkFilBufPos := (if unat (bkFilBufPos st) = sizeMinus1 (bkFilBufSize cfg)
                                             then 0 else bkFilBufPos st) + 1,
                          repeatsFound := repeatsFound st + 1\<rparr>) = Some r"
                by (simp add: Let_def)
              then show ?thesis by (rule cont) (use inv in simp_all)
            qed
          next
            case acc: False
            let ?st' = "st\<lparr>repeatsFound := 0, offsetDigest := (offsetDigest st)(b := ?w),
                          bkCd := bkCd st @ offsetBytes ?w\<rparr>"
            from eq BufLoop cur match acc have r: "r = Mapped ?st'"
              by (auto simp add: Let_def)
            have "bkInv cfg bkFil ?st'"
              using inv nth match unfolding bkInv_def by simp
            then show ?thesis
              using cur nth match acc unfolding r scanPost_def by auto
          qed
        qed
      qed
    qed
  qed
qed

lemma scanBkFil_post:
  "scanBkFil cfg bkFil b l st = Some r \<Longrightarrow> bkInv cfg bkFil st \<Longrightarrow> scanPost cfg bkFil b st r"
  using scanBkFil_post_aux by blast

lemma scanBkFil_Exhausted_aux:
  assumes "scanBkFil cfg bkFil b l st = Some r"
  shows "\<forall>st'. r = Exhausted st' \<longrightarrow> \<not> unat (bkFilPos st') < bkFilSize cfg"
proof (rule scanBkFil.raw_induct
    [where P = "\<lambda>cfg bkFil b l st r. \<forall>st'. r = Exhausted st' \<longrightarrow> \<not> unat (bkFilPos st') < bkFilSize cfg",
     OF _ assms], goal_cases)
  case (1 scan cfg bkFil b l st r)
  from 1(2) show ?case
    by (auto simp add: Let_def dest: 1(1) split: loc.splits if_splits sum.splits prod.splits)
qed

lemma scanBkFil_Exhausted:
  "scanBkFil cfg bkFil b l st = Some (Exhausted st') \<Longrightarrow> \<not> unat (bkFilPos st') < bkFilSize cfg"
  using scanBkFil_Exhausted_aux by blast

section \<open>Scans that never end, and scans for a byte the book file lacks\<close>

lemma scanBkFil_livelock_aux:
  assumes "scanBkFil cfg bkFil b l st = Some r"
  shows "\<not> (bkInv cfg bkFil st \<and> \<not> allowDuplicates cfg \<and> offsetDigest st b \<noteq> - 1 \<and>
            (\<forall>i<bkFilSize cfg. bkFil ! i = b \<longrightarrow> i = unat (offsetDigest st b)))"
proof (rule scanBkFil.raw_induct
    [where P = "\<lambda>cfg bkFil b l st r.
        \<not> (bkInv cfg bkFil st \<and> \<not> allowDuplicates cfg \<and> offsetDigest st b \<noteq> - 1 \<and>
            (\<forall>i<bkFilSize cfg. bkFil ! i = b \<longrightarrow> i = unat (offsetDigest st b)))", OF _ assms],
    goal_cases)
  case (1 scan cfg bkFil b l st r)
  note IH = 1(1) and eq = 1(2)
  show ?case
  proof
    assume A: "bkInv cfg bkFil st \<and> \<not> allowDuplicates cfg \<and> offsetDigest st b \<noteq> - 1 \<and>
            (\<forall>i<bkFilSize cfg. bkFil ! i = b \<longrightarrow> i = unat (offsetDigest st b))"
    then have inv: "bkInv cfg bkFil st" and nd: "\<not> allowDuplicates cfg"
      and dg: "offsetDigest st b \<noteq> - 1"
      and only: "\<forall>i<bkFilSize cfg. bkFil ! i = b \<longrightarrow> i = unat (offsetDigest st b)"
      by simp_all
    have cont: False
      if "scan cfg bkFil b l' st2 = Some r" "bkInv cfg bkFil st2"
        "offsetDigest st2 = offsetDigest st" for l' st2
      using IH[OF that(1)] that(2,3) nd dg only by simp
    have refill: False
      if "(case refillBuffer cfg bkFil b st of
             Inl (e, out) \<Rightarrow> Some (Aborted e out)
           | Inr st' \<Rightarrow> scan cfg bkFil b BufLoop (st'\<lparr>bkFilBufPos := bkFilBufPos st' + 1\<rparr>)) = Some r"
    proof -
      from refillBuffer_cases[OF inv, of b] dg
      obtain st' where r: "refillBuffer cfg bkFil b st = Inr st'" and i: "bkInv cfg bkFil st'"
        and o: "offsetDigest st' = offsetDigest st"
        by blast
      from that r have "scan cfg bkFil b BufLoop (st'\<lparr>bkFilBufPos := bkFilBufPos st' + 1\<rparr>) = Some r"
        by simp
      then show False by (rule cont) (use i o in simp_all)
    qed
    show False
    proof (cases l)
      case BkFilLoop
      from inv have "unat (bkFilPos st) < bkFilSize cfg" by (simp add: bkInv_def)
      with eq BkFilLoop have "scan cfg bkFil b BufLoop st = Some r" by simp
      then show ?thesis by (rule cont) (use inv in simp_all)
    next
      case BufLoop
      show ?thesis
      proof (cases "unat (bkFilBufPos st) < bkFilBufSize cfg")
        case False
        with eq BufLoop have "scan cfg bkFil b BkFilLoop st = Some r" by simp
        then show ?thesis by (rule cont) (use inv in simp_all)
      next
        case cur: True
        note nth = bkInv_buffer_nth[OF inv cur]
        show ?thesis
        proof (cases "b = bkFilBuffer st ! unat (bkFilBufPos st)")
          case False
          show ?thesis
          proof (cases "unat (bkFilBufPos st) = sizeMinus1 (bkFilBufSize cfg)")
            case True
            with eq BufLoop cur False show ?thesis by (intro refill) (simp add: Let_def)
          next
            case nl: False
            with eq BufLoop cur False
            have "scan cfg bkFil b BufLoop (st\<lparr>bkFilBufPos := bkFilBufPos st + 1\<rparr>) = Some r"
              by (simp add: Let_def)
            then show ?thesis by (rule cont) (use inv in simp_all)
          qed
        next
          case match: True
          let ?w = "bkFilBufPos st + bkFilPos st"
          from match nth(3) have "bkFil ! unat ?w = b" by simp
          with only nth(2) have "unat ?w = unat (offsetDigest st b)" by blast
          then have rep: "offsetDigest st b = ?w" by (simp add: word_unat_eq_iff)
          show ?thesis
          proof (cases "2 \<le> repeatsFound st")
            case True
            with eq BufLoop cur match rep nd show ?thesis by (intro refill) (simp add: Let_def)
          next
            case False
            with eq BufLoop cur match rep nd
            have "scan cfg bkFil b BufLoop
                    (st\<lparr>bkFilBufPos := (if unat (bkFilBufPos st) = sizeMinus1 (bkFilBufSize cfg)
                                           then 0 else bkFilBufPos st) + 1,
                        repeatsFound := repeatsFound st + 1\<rparr>) = Some r"
              by (simp add: Let_def)
            then show ?thesis by (rule cont) (use inv in simp_all)
          qed
        qed
      qed
    qed
  qed
qed

lemma scanBkFil_livelock:
  assumes "bkInv cfg bkFil st" and "\<not> allowDuplicates cfg" and "offsetDigest st b \<noteq> - 1"
    and "\<forall>i<bkFilSize cfg. bkFil ! i = b \<longrightarrow> i = unat (offsetDigest st b)"
  shows "scanBkFil cfg bkFil b l st = None"
  using scanBkFil_livelock_aux[of cfg bkFil b l st] assms
  by (cases "scanBkFil cfg bkFil b l st") blast+

lemma scanBkFil_absent_BufLoop:
  assumes "bkInv cfg bkFil st" and W: "2 \<le> bkFilBufSize cfg"
    and "unat (bkFilBufPos st) < bkFilBufSize cfg"
    and ab: "b \<notin> set (take (bkFilSize cfg) bkFil)"
  shows "scanBkFil cfg bkFil b BufLoop st = Some (Aborted NotEnoughEntropy (bkCd st))"
  using assms(1,3)
proof (induction "(bkFilSize cfg - unat (bkFilPos st)) + (bkFilBufSize cfg - unat (bkFilBufPos st))"
    arbitrary: st rule: less_induct)
  case less
  note inv = less.prems(1) and cur = less.prems(2)
  note nth = bkInv_buffer_nth[OF inv cur]
  from inv have S: "bkFilSize cfg \<le> length bkFil" "length bkFil < 2 ^ 32" by (simp_all add: bkInv_def)
  have dg: "offsetDigest st b = - 1" by (rule bkInv_absent[OF inv ab])
  have mm: "b \<noteq> bkFilBuffer st ! unat (bkFilBufPos st)"
  proof
    assume "b = bkFilBuffer st ! unat (bkFilBufPos st)"
    with nth(3) have "take (bkFilSize cfg) bkFil ! unat (bkFilBufPos st + bkFilPos st) = b"
      using nth(2) by simp
    moreover have "unat (bkFilBufPos st + bkFilPos st) < length (take (bkFilSize cfg) bkFil)"
      using nth(2) S by simp
    ultimately have "b \<in> set (take (bkFilSize cfg) bkFil)" by (metis nth_mem)
    with ab show False by simp
  qed
  have sm: "sizeMinus1 (bkFilBufSize cfg) = bkFilBufSize cfg - 1" using W by (simp add: sizeMinus1_def)
  show ?case
  proof (cases "unat (bkFilBufPos st) = bkFilBufSize cfg - 1")
    case last: True
    from refillBuffer_cases[OF inv, of b] dg
    consider "refillBuffer cfg bkFil b st = Inl (NotEnoughEntropy, bkCd st)"
      | st' where "refillBuffer cfg bkFil b st = Inr st'" "bkInv cfg bkFil st'" "bkFilBufPos st' = 0"
          "bkCd st' = bkCd st" "unat (bkFilPos st') = unat (bkFilPos st) + bkFilBufSize cfg"
      by blast
    then show ?thesis
    proof cases
      case 1
      then show ?thesis
        unfolding scanBkFil_mismatch_last[OF cur mm last[folded sm]] by simp
    next
      case (2 st')
      let ?st2 = "st'\<lparr>bkFilBufPos := bkFilBufPos st' + 1\<rparr>"
      have i2: "bkInv cfg bkFil ?st2" using 2(2) by simp
      have c2: "unat (bkFilBufPos ?st2) < bkFilBufSize cfg" using 2(3) W by simp
      have p2: "unat (bkFilPos st') < bkFilSize cfg" using 2(2) by (simp add: bkInv_def)
      have "scanBkFil cfg bkFil b BufLoop ?st2 = Some (Aborted NotEnoughEntropy (bkCd ?st2))"
        by (rule less.hyps[OF _ i2 c2]) (use 2(3,5) p2 cur W in simp)
      then show ?thesis
        unfolding scanBkFil_mismatch_last[OF cur mm last[folded sm]] using 2(1,4) by simp
    qed
  next
    case nl: False
    let ?st2 = "st\<lparr>bkFilBufPos := bkFilBufPos st + 1\<rparr>"
    have u: "unat (bkFilBufPos st + 1) = unat (bkFilBufPos st) + 1"
      using cur nth(1,2) S by (simp add: unat_word_ariths)
    have i2: "bkInv cfg bkFil ?st2" using inv by simp
    have c2: "unat (bkFilBufPos ?st2) < bkFilBufSize cfg" using u cur nl by simp
    have "scanBkFil cfg bkFil b BufLoop ?st2 = Some (Aborted NotEnoughEntropy (bkCd ?st2))"
      by (rule less.hyps[OF _ i2 c2]) (use u cur in simp)
    then show ?thesis
      unfolding scanBkFil_mismatch_next[OF cur mm nl[folded sm]] by simp
  qed
qed

lemma scanBkFil_absent:
  assumes "bkInv cfg bkFil st" and "2 \<le> bkFilBufSize cfg"
    and "unat (bkFilBufPos st) < bkFilBufSize cfg"
    and "b \<notin> set (take (bkFilSize cfg) bkFil)"
  shows "scanBkFil cfg bkFil b BkFilLoop st = Some (Aborted NotEnoughEntropy (bkCd st))"
proof -
  from assms(1) have "unat (bkFilPos st) < bkFilSize cfg" by (simp add: bkInv_def)
  then show ?thesis
    by (subst scanBkFil.simps) (simp add: scanBkFil_absent_BufLoop[OF assms])
qed

section \<open>The chunk loops byte by byte\<close>

lemma mapChunk_Exhausted_aux:
  assumes "mapChunk cfg bkFil buf n p st = Some y"
  shows "unat p < n \<longrightarrow> unat (bkFilPos st) < bkFilSize cfg"
proof (rule mapChunk.raw_induct
    [where P = "\<lambda>cfg bkFil buf n p st y. unat p < n \<longrightarrow> unat (bkFilPos st) < bkFilSize cfg",
     OF _ assms], goal_cases)
  case (1 f cfg bkFil buf n p st y)
  show ?case
  proof (rule impI, rule ccontr)
    assume p: "unat p < n" and ex: "\<not> unat (bkFilPos st) < bkFilSize cfg"
    then have "scanBkFil cfg bkFil (buf ! unat p) BkFilLoop st = Some (Exhausted st)"
      by (subst scanBkFil.simps) simp
    with 1(2) p have "f cfg bkFil buf n p st = Some y" by simp
    from 1(1)[OF this] p ex show False by simp
  qed
qed

lemma mapChunk_Exhausted:
  "unat p < n \<Longrightarrow> \<not> unat (bkFilPos st) < bkFilSize cfg \<Longrightarrow> mapChunk cfg bkFil buf n p st = None"
  using mapChunk_Exhausted_aux by (cases "mapChunk cfg bkFil buf n p st") blast+

lemma mapChunk_mapBytes:
  assumes "length buf < 2 ^ 32" and "unat p \<le> length buf"
  shows "mapChunk cfg bkFil buf (length buf) p st = mapBytes cfg bkFil (drop (unat p) buf) st"
  using assms
proof (induction "length buf - unat p" arbitrary: p st)
  case 0
  then show ?case by (subst mapChunk.simps) simp
next
  case (Suc k)
  from Suc.hyps(2) have lt: "unat p < length buf" by simp
  have up: "unat (p + 1) = unat p + 1"
    using lt Suc.prems(1) by (simp add: unat_word_ariths)
  have dr: "drop (unat p) buf = buf ! unat p # drop (unat p + 1) buf"
    using lt by (simp add: Cons_nth_drop_Suc)
  have IH: "mapChunk cfg bkFil buf (length buf) (p + 1) st' =
            mapBytes cfg bkFil (drop (unat p + 1) buf) st'" for st'
    using Suc.hyps(1)[of "p + 1" st'] Suc.hyps(2) Suc.prems lt up by simp
  show ?case
  proof (cases "scanBkFil cfg bkFil (buf ! unat p) BkFilLoop st")
    case None
    then show ?thesis by (subst mapChunk.simps) (simp add: lt dr)
  next
    case (Some r)
    show ?thesis
    proof (cases r)
      case (Mapped st')
      with Some show ?thesis by (subst mapChunk.simps) (simp add: lt dr IH)
    next
      case (Aborted e out)
      with Some show ?thesis by (subst mapChunk.simps) (simp add: lt dr)
    next
      case (Exhausted st')
      with Some have "\<not> unat (bkFilPos st') < bkFilSize cfg" by (simp add: scanBkFil_Exhausted)
      with lt have "mapChunk cfg bkFil buf (length buf) p st' = None" by (rule mapChunk_Exhausted)
      with Some Exhausted show ?thesis by (subst mapChunk.simps) (simp add: lt dr)
    qed
  qed
qed

lemma mapBytes_append:
  "mapBytes cfg bkFil (xs @ ys) st =
     (case mapBytes cfg bkFil xs st of
        None \<Rightarrow> None
      | Some (Inl e) \<Rightarrow> Some (Inl e)
      | Some (Inr st') \<Rightarrow> mapBytes cfg bkFil ys st')"
  by (induction xs arbitrary: st) (auto split: option.splits scanResult.splits sum.splits)

lemma mapChunks_mapBytes:
  assumes "0 < c" and "c < 2 ^ 32"
  shows "mapChunks cfg bkFil (length orgFil) c orgFil st = mapBytes cfg bkFil orgFil st"
  using assms
proof (induction "length orgFil" arbitrary: orgFil c st rule: less_induct)
  case less
  show ?case
  proof (cases "orgFil = []")
    case True
    then show ?thesis by (subst mapChunks.simps) simp
  next
    case False
    define c' where "c' = (if c > length orgFil then length orgFil else c)"
    have c': "0 < c'" "c' < 2 ^ 32" "c' \<le> length orgFil"
      using less.prems False by (auto simp add: c'_def)
    have chunk: "mapChunk cfg bkFil (take c' orgFil) c' 0 st = mapBytes cfg bkFil (take c' orgFil) st"
    proof -
      have l: "length (take c' orgFil) = c'" using c'(3) by simp
      show ?thesis
        using mapChunk_mapBytes[of "take c' orgFil" 0 cfg bkFil st] c'(2) unfolding l by simp
    qed
    have rest: "mapChunks cfg bkFil (length orgFil - c') c' (drop c' orgFil) st' =
                mapBytes cfg bkFil (drop c' orgFil) st'" for st'
      using less.hyps[of "drop c' orgFil" c' st'] c' False by simp
    have "mapBytes cfg bkFil orgFil st = mapBytes cfg bkFil (take c' orgFil @ drop c' orgFil) st"
      by simp
    also have "\<dots> = (case mapBytes cfg bkFil (take c' orgFil) st of
        None \<Rightarrow> None
      | Some (Inl e) \<Rightarrow> Some (Inl e)
      | Some (Inr st') \<Rightarrow> mapBytes cfg bkFil (drop c' orgFil) st')"
      by (rule mapBytes_append)
    finally have split: "mapBytes cfg bkFil orgFil st = (case mapBytes cfg bkFil (take c' orgFil) st of
        None \<Rightarrow> None
      | Some (Inl e) \<Rightarrow> Some (Inl e)
      | Some (Inr st') \<Rightarrow> mapBytes cfg bkFil (drop c' orgFil) st')" .
    show ?thesis
      unfolding split
      apply (subst mapChunks.simps)
      using False c'(3)
      apply (simp add: Let_def c'_def[symmetric] chunk rest cong: option.case_cong sum.case_cong)
      done
  qed
qed

lemma mapChunk_Inr_bound_aux:
  assumes "mapChunk cfg bkFil buf n p st = Some y"
  shows "\<forall>st'. y = Inr st' \<longrightarrow> n < 2 ^ 32"
proof (rule mapChunk.raw_induct
    [where P = "\<lambda>cfg bkFil buf n p st y. \<forall>st'. y = Inr st' \<longrightarrow> n < 2 ^ 32", OF _ assms],
    goal_cases)
  case (1 f cfg bkFil buf n p st y)
  show ?case
  proof (cases "unat p < n")
    case True
    with 1(2) show ?thesis
      by (auto dest: 1(1) split: option.splits scanResult.splits)
  next
    case False
    have "unat p < 2 ^ 32" using unsigned_less[of p, where 'a = nat] by simp
    with False show ?thesis by simp
  qed
qed

lemma mapChunk_Inr_bound:
  "mapChunk cfg bkFil buf n p st = Some (Inr st') \<Longrightarrow> n < 2 ^ 32"
  using mapChunk_Inr_bound_aux by blast

lemma mapChunks_zero_aux:
  assumes "mapChunks cfg bkFil n c orgFil st = Some y"
  shows "\<not> (n \<noteq> 0 \<and> c = 0)"
proof (rule mapChunks.raw_induct
    [where P = "\<lambda>cfg bkFil n c orgFil st y. \<not> (n \<noteq> 0 \<and> c = 0)", OF _ assms], goal_cases)
  case (1 f cfg bkFil n c orgFil st y)
  show ?case
  proof
    assume a: "n \<noteq> 0 \<and> c = 0"
    have "mapChunk cfg bkFil [] 0 0 st = Some (Inr st)"
      by (subst mapChunk.simps) simp
    with 1(2) a have "f cfg bkFil n 0 orgFil st = Some y" by (simp add: Let_def)
    from 1(1)[OF this] a show False by simp
  qed
qed

lemma mapChunks_zero:
  "n \<noteq> 0 \<Longrightarrow> mapChunks cfg bkFil n 0 orgFil st = None"
  using mapChunks_zero_aux[of cfg bkFil n 0 orgFil st]
  by (cases "mapChunks cfg bkFil n 0 orgFil st") auto

lemma mapChunks_Inr:
  assumes run: "mapChunks cfg bkFil (length orgFil) c orgFil st = Some (Inr st')"
  shows "mapBytes cfg bkFil orgFil st = Some (Inr st')"
proof (cases "orgFil = []")
  case True
  with run show ?thesis by (subst (asm) mapChunks.simps) simp
next
  case ne: False
  show ?thesis
  proof (cases "c = 0")
    case True
    with run ne mapChunks_zero[of "length orgFil" cfg bkFil orgFil st] show ?thesis by simp
  next
    case False
    define c' where "c' = (if c > length orgFil then length orgFil else c)"
    have c': "0 < c'" "c' \<le> length orgFil" using False ne by (auto simp add: c'_def)
    have l: "length (take c' orgFil) = c'" using c'(2) by simp
    from run have u: "(case mapChunk cfg bkFil (take c' orgFil) c' 0 st of
              None \<Rightarrow> None
            | Some (Inl e) \<Rightarrow> Some (Inl e)
            | Some (Inr st1) \<Rightarrow>
                mapChunks cfg bkFil (length orgFil - c') c' (drop c' orgFil) st1) = Some (Inr st')"
      using ne c'(2) by (subst (asm) mapChunks.simps) (simp add: Let_def c'_def[symmetric])
    then obtain st1 where m: "mapChunk cfg bkFil (take c' orgFil) c' 0 st = Some (Inr st1)"
      and r: "mapChunks cfg bkFil (length orgFil - c') c' (drop c' orgFil) st1 = Some (Inr st')"
      by (auto split: option.splits sum.splits)
    from mapChunk_Inr_bound[OF m] have b: "c' < 2 ^ 32" .
    have "mapBytes cfg bkFil (take c' orgFil) st = Some (Inr st1)"
      using mapChunk_mapBytes[of "take c' orgFil" 0 cfg bkFil st] b m unfolding l by simp
    moreover have "mapBytes cfg bkFil (drop c' orgFil) st1 = Some (Inr st')"
      using mapChunks_mapBytes[OF c'(1) b, of cfg bkFil "drop c' orgFil" st1] r by simp
    ultimately have "mapBytes cfg bkFil (take c' orgFil @ drop c' orgFil) st = Some (Inr st')"
      by (simp only: mapBytes_append) simp
    then show ?thesis by simp
  qed
qed

lemma mapBytes_written:
  assumes "mapBytes cfg bkFil xs st = Some res"
  shows "\<exists>ws. written res = bkCd st @ concat (map offsetBytes ws) \<and> length ws \<le> length xs \<and>
           (\<forall>st'. res = Inr st' \<longrightarrow> length ws = length xs) \<and>
           (\<not> allowDuplicates cfg \<longrightarrow> noRepeat (offsetDigest st) xs ws) \<and>
           (bkInv cfg bkFil st \<longrightarrow>
              (\<forall>i<length ws. unat (ws ! i) < bkFilSize cfg \<and> bkFil ! unat (ws ! i) = xs ! i) \<and>
              (\<forall>st'. res = Inr st' \<longrightarrow> bkInv cfg bkFil st') \<and>
              (\<forall>e out. res = Inl (e, out) \<longrightarrow> e = NotEnoughEntropy))"
  using assms
proof (induction xs arbitrary: st)
  case Nil
  then show ?case by (auto simp add: written_def intro!: exI[of _ "[]"])
next
  case (Cons b xs)
  show ?case
  proof (cases "scanBkFil cfg bkFil b BkFilLoop st")
    case None
    with Cons.prems show ?thesis by simp
  next
    case (Some r)
    note wrote = scanBkFil_wrote_aux[OF Some]
    have post: "scanPost cfg bkFil b st r" if "bkInv cfg bkFil st"
      using scanBkFil_post[OF Some that] .
    show ?thesis
    proof (cases r)
      case (Exhausted st')
      with Some Cons.prems show ?thesis by simp
    next
      case (Aborted e out)
      with Some Cons.prems have res: "res = Inl (e, out)" by simp
      from wrote Aborted have out: "out = bkCd st" by (simp add: scanWrote_def)
      have "bkInv cfg bkFil st \<longrightarrow> e = NotEnoughEntropy"
        using post Aborted by (auto simp add: scanPost_def)
      then show ?thesis
        unfolding res using out by (auto simp add: written_def intro!: exI[of _ "[]"])
    next
      case (Mapped st1)
      with Some Cons.prems have rec: "mapBytes cfg bkFil xs st1 = Some res" by simp
      from wrote Mapped obtain w where w: "bkCd st1 = bkCd st @ offsetBytes w"
        "offsetDigest st1 = (offsetDigest st)(b := w)"
        "\<not> allowDuplicates cfg \<longrightarrow> w \<noteq> offsetDigest st b"
        by (auto simp add: scanWrote_def)
      have p1: "bkInv cfg bkFil st1 \<and> unat w < bkFilSize cfg \<and> bkFil ! unat w = b"
        if "bkInv cfg bkFil st"
      proof -
        from post[OF that] Mapped obtain w' where i: "bkInv cfg bkFil st1"
          and w': "bkCd st1 = bkCd st @ offsetBytes w'" "unat w' < bkFilSize cfg" "bkFil ! unat w' = b"
          by (auto simp add: scanPost_def)
        from w(1) w'(1) have "offsetBytes w = offsetBytes w'" by simp
        then have "bytesOffset (offsetBytes w) = bytesOffset (offsetBytes w')" by simp
        then have "w = w'" by (simp only: bytesOffset_offsetBytes)
        with i w' show ?thesis by simp
      qed
      from Cons.IH[OF rec] obtain ws where ws:
        "written res = bkCd st1 @ concat (map offsetBytes ws)" "length ws \<le> length xs"
        "\<forall>st'. res = Inr st' \<longrightarrow> length ws = length xs"
        "\<not> allowDuplicates cfg \<longrightarrow> noRepeat (offsetDigest st1) xs ws"
        "bkInv cfg bkFil st1 \<longrightarrow>
              (\<forall>i<length ws. unat (ws ! i) < bkFilSize cfg \<and> bkFil ! unat (ws ! i) = xs ! i) \<and>
              (\<forall>st'. res = Inr st' \<longrightarrow> bkInv cfg bkFil st') \<and>
              (\<forall>e out. res = Inl (e, out) \<longrightarrow> e = NotEnoughEntropy)"
        by blast
      have a: "written res = bkCd st @ concat (map offsetBytes (w # ws))"
        using ws(1) w(1) by simp
      have b: "length (w # ws) \<le> length (b # xs)" using ws(2) by simp
      have c: "\<forall>st'. res = Inr st' \<longrightarrow> length (w # ws) = length (b # xs)" using ws(3) by simp
      have d: "\<not> allowDuplicates cfg \<longrightarrow> noRepeat (offsetDigest st) (b # xs) (w # ws)"
        using ws(4) w(2,3) by simp
      have e: "bkInv cfg bkFil st \<longrightarrow>
              (\<forall>i<length (w # ws). unat ((w # ws) ! i) < bkFilSize cfg \<and>
                   bkFil ! unat ((w # ws) ! i) = (b # xs) ! i) \<and>
              (\<forall>st'. res = Inr st' \<longrightarrow> bkInv cfg bkFil st') \<and>
              (\<forall>e out. res = Inl (e, out) \<longrightarrow> e = NotEnoughEntropy)"
      proof
        assume inv: "bkInv cfg bkFil st"
        note p = p1[OF inv]
        from ws(5) p have q: "\<forall>i<length ws. unat (ws ! i) < bkFilSize cfg \<and> bkFil ! unat (ws ! i) = xs ! i"
          "\<forall>st'. res = Inr st' \<longrightarrow> bkInv cfg bkFil st'"
          "\<forall>e out. res = Inl (e, out) \<longrightarrow> e = NotEnoughEntropy" by simp_all
        have "unat ((w # ws) ! i) < bkFilSize cfg \<and> bkFil ! unat ((w # ws) ! i) = (b # xs) ! i"
          if "i < length (w # ws)" for i
          using that p q(1) by (cases i) simp_all
        with q(2,3) show "(\<forall>i<length (w # ws). unat ((w # ws) ! i) < bkFilSize cfg \<and>
                   bkFil ! unat ((w # ws) ! i) = (b # xs) ! i) \<and>
              (\<forall>st'. res = Inr st' \<longrightarrow> bkInv cfg bkFil st') \<and>
              (\<forall>e out. res = Inl (e, out) \<longrightarrow> e = NotEnoughEntropy)" by blast
      qed
      from a b c d e show ?thesis by blast
    qed
  qed
qed

lemma mapBytes_inv:
  assumes "mapBytes cfg bkFil xs st = Some (Inr st')" and "bkInv cfg bkFil st"
    and "unat (bkFilBufPos st) < bkFilBufSize cfg"
  shows "bkInv cfg bkFil st' \<and> unat (bkFilBufPos st') < bkFilBufSize cfg"
  using assms
proof (induction xs arbitrary: st)
  case Nil
  then show ?case by simp
next
  case (Cons b xs)
  from Cons.prems(1) obtain st1 where s: "scanBkFil cfg bkFil b BkFilLoop st = Some (Mapped st1)"
    and r: "mapBytes cfg bkFil xs st1 = Some (Inr st')"
    by (auto split: option.splits scanResult.splits)
  from scanBkFil_post[OF s Cons.prems(2)]
  have "bkInv cfg bkFil st1" "unat (bkFilBufPos st1) < bkFilBufSize cfg"
    by (simp_all add: scanPost_def)
  with Cons.IH[OF r] show ?case by simp
qed

lemma mapBytes_absent:
  assumes "mapBytes cfg bkFil xs st = Some (Inr st')" and "bkInv cfg bkFil st"
    and "unat (bkFilBufPos st) < bkFilBufSize cfg" and "2 \<le> bkFilBufSize cfg"
    and "b \<notin> set (take (bkFilSize cfg) bkFil)"
  shows "mapBytes cfg bkFil (xs @ b # ys) st = Some (Inl (NotEnoughEntropy, bkCd st'))"
proof -
  from mapBytes_inv[OF assms(1-3)]
  have "scanBkFil cfg bkFil b BkFilLoop st' = Some (Aborted NotEnoughEntropy (bkCd st'))"
    by (intro scanBkFil_absent assms(4,5)) simp_all
  then show ?thesis by (simp add: mapBytes_append assms(1))
qed

lemma mapBytes_digest_set:
  assumes "mapBytes cfg bkFil xs st = Some (Inr st')" and "bkInv cfg bkFil st"
    and "b \<in> set xs \<or> offsetDigest st b \<noteq> - 1"
  shows "offsetDigest st' b \<noteq> - 1"
  using assms
proof (induction xs arbitrary: st)
  case Nil
  then show ?case by simp
next
  case (Cons x xs)
  from Cons.prems(1) obtain st1 where s: "scanBkFil cfg bkFil x BkFilLoop st = Some (Mapped st1)"
    and r: "mapBytes cfg bkFil xs st1 = Some (Inr st')"
    by (auto split: option.splits scanResult.splits)
  from scanBkFil_post[OF s Cons.prems(2)] obtain w where
    i: "bkInv cfg bkFil st1" and w: "unat w < bkFilSize cfg"
    and d: "offsetDigest st1 = (offsetDigest st)(x := w)"
    by (auto simp add: scanPost_def)
  from i have "bkFilSize cfg \<le> length bkFil" "length bkFil < 2 ^ 32" by (simp_all add: bkInv_def)
  moreover have "unat (- 1 :: uoffset_t) = 2 ^ 32 - 1" by (simp add: unsigned_minus_1_eq_mask mask_eq_exp_minus_1)
  ultimately have "unat w \<noteq> unat (- 1 :: uoffset_t)" using w by simp
  then have "w \<noteq> - 1" by auto
  with Cons.prems(3) d have "b \<in> set xs \<or> offsetDigest st1 b \<noteq> - 1" by auto
  from Cons.IH[OF r i this] show ?case .
qed

lemma mapBytes_livelock:
  assumes "mapBytes cfg bkFil xs st = Some (Inr st')" and "bkInv cfg bkFil st"
    and "\<not> allowDuplicates cfg" and "b \<in> set xs"
    and "\<forall>i<bkFilSize cfg. \<forall>j<bkFilSize cfg. bkFil ! i = b \<and> bkFil ! j = b \<longrightarrow> i = j"
  shows "mapBytes cfg bkFil (xs @ b # ys) st = None"
proof -
  from mapBytes_written[OF assms(1)] assms(2) have inv: "bkInv cfg bkFil st'" by blast
  have dg: "offsetDigest st' b \<noteq> - 1"
    by (rule mapBytes_digest_set[OF assms(1,2)]) (simp add: assms(4))
  with inv have d: "unat (offsetDigest st' b) < bkFilSize cfg" "bkFil ! unat (offsetDigest st' b) = b"
    by (simp_all add: bkInv_def)
  have "\<forall>i<bkFilSize cfg. bkFil ! i = b \<longrightarrow> i = unat (offsetDigest st' b)"
    using assms(5) d by blast
  from scanBkFil_livelock[OF inv assms(3) dg this]
  have "scanBkFil cfg bkFil b BkFilLoop st' = None" .
  then show ?thesis by (simp add: mapBytes_append assms(1))
qed

lemma noRepeat_nth:
  "noRepeat d xs ws \<Longrightarrow>
     (\<forall>j<length ws. j < length xs \<longrightarrow> (\<forall>k<j. xs ! k \<noteq> xs ! j) \<longrightarrow> ws ! j \<noteq> d (xs ! j)) \<and>
     (\<forall>i j. i < j \<and> j < length ws \<and> j < length xs \<and> xs ! i = xs ! j \<and>
            (\<forall>k. i < k \<and> k < j \<longrightarrow> xs ! k \<noteq> xs ! i) \<longrightarrow> ws ! i \<noteq> ws ! j)"
proof (induction d xs ws rule: noRepeat.induct)
  case (1 d x xs w ws)
  then have w: "w \<noteq> d x" and nr: "noRepeat (d(x := w)) xs ws" by simp_all
  note IH = "1.IH"[OF nr]
  from IH have first: "ws ! j \<noteq> (d(x := w)) (xs ! j)"
    if "j < length ws" "j < length xs" "\<forall>k<j. xs ! k \<noteq> xs ! j" for j
    using that by blast
  from IH have pair: "ws ! i \<noteq> ws ! j"
    if "i < j" "j < length ws" "j < length xs" "xs ! i = xs ! j"
      "\<forall>k. i < k \<and> k < j \<longrightarrow> xs ! k \<noteq> xs ! i" for i j
    using that by blast
  have A: "(w # ws) ! j \<noteq> d ((x # xs) ! j)"
    if j: "j < length (w # ws)" "j < length (x # xs)" and f: "\<forall>k<j. (x # xs) ! k \<noteq> (x # xs) ! j" for j
  proof (cases j)
    case 0
    with w show ?thesis by simp
  next
    case (Suc j')
    from f Suc have "x \<noteq> xs ! j'" by (auto dest: spec[of _ 0])
    moreover from f Suc have "\<forall>k<j'. xs ! k \<noteq> xs ! j'" by (auto dest: spec[of _ "Suc _"])
    ultimately show ?thesis using first[of j'] j Suc by auto
  qed
  have B: "(w # ws) ! i \<noteq> (w # ws) ! j"
    if ij: "i < j" "j < length (w # ws)" "j < length (x # xs)" "(x # xs) ! i = (x # xs) ! j"
      and btw: "\<forall>k. i < k \<and> k < j \<longrightarrow> (x # xs) ! k \<noteq> (x # xs) ! i" for i j
  proof -
    from ij(1) obtain j' where j': "j = Suc j'" by (cases j) simp_all
    show ?thesis
    proof (cases i)
      case 0
      with ij j' have e: "xs ! j' = x" by simp
      have "\<forall>k<j'. xs ! k \<noteq> xs ! j'"
      proof (intro allI impI)
        fix k assume "k < j'"
        with btw[rule_format, of "Suc k"] 0 j' e show "xs ! k \<noteq> xs ! j'" by simp
      qed
      from first[OF _ _ this] ij j' e 0 show ?thesis by simp
    next
      case (Suc i')
      have "\<forall>k. i' < k \<and> k < j' \<longrightarrow> xs ! k \<noteq> xs ! i'"
      proof (intro allI impI)
        fix k assume "i' < k \<and> k < j'"
        with btw[rule_format, of "Suc k"] Suc j' show "xs ! k \<noteq> xs ! i'" by simp
      qed
      from pair[OF _ _ _ _ this] ij Suc j' show ?thesis by simp
    qed
  qed
  from A B show ?case by blast
qed simp_all

section \<open>Runs of the mapping branch of main\<close>

lemma mainMapConfig_Inr:
  assumes "mainMapConfig d r bg n = Inr cfg"
  shows "allowDuplicates cfg = d" "resetAtEndOfBuf cfg = r" "0 < bkFilBufSize cfg"
    "bkFilBufSize cfg \<le> n" "bkFilSize cfg = n - n mod bkFilBufSize cfg"
    "bkFilBufSize cfg = min n (case bg of None \<Rightarrow> DEFAULT_BUFFER_SIZE | Some k \<Rightarrow> k)"
  using assms by (auto simp add: mainMapConfig_def Let_def split: if_splits)

lemma mainMapConfig_Inl:
  "mainMapConfig d r bg n = Inl e \<Longrightarrow> e = SIGFPE"
  by (auto simp add: mainMapConfig_def Let_def split: if_splits)

lemma mainMapConfig_Inl_size:
  "mainMapConfig d r bg n = Inl e \<Longrightarrow>
     min n (case bg of None \<Rightarrow> DEFAULT_BUFFER_SIZE | Some k \<Rightarrow> k) = 0"
  by (auto simp add: mainMapConfig_def Let_def min_def split: if_splits)

lemma mainMap_mapBytes:
  assumes og: "\<forall>n. og = Some n \<longrightarrow> 0 < n \<and> n < 2 ^ 32"
    and cfg: "mainMapConfig d r bg (length bkFil) = Inr cfg"
  shows "mainMap d r bg og bkFil orgFil =
     mapBytes cfg bkFil orgFil
       (initialState\<lparr>bkFilBuffer := take (bkFilBufSize cfg) bkFil, bkFilOff := bkFilBufSize cfg\<rparr>)"
proof -
  let ?st = "initialState\<lparr>bkFilBuffer := take (bkFilBufSize cfg) bkFil, bkFilOff := bkFilBufSize cfg\<rparr>"
  let ?c = "mainOrgFilBufSize og (length orgFil)"
  note W = mainMapConfig_Inr[OF cfg]
  have rd: "freadBkFil bkFil (bkFilBufSize cfg) initialState = Inr ?st"
    using W(4) by (simp add: freadBkFil_def initialState_def)
  have m: "mainMap d r bg og bkFil orgFil = mapChunks cfg bkFil (length orgFil) ?c orgFil ?st"
    by (simp add: mainMap_def cfg mapOffsets_def rd)
  show ?thesis
  proof (cases "orgFil = []")
    case True
    then show ?thesis unfolding m by (subst mapChunks.simps) simp
  next
    case False
    have "0 < ?c \<and> ?c < 2 ^ 32"
      using og False
      by (cases og) (auto simp add: mainOrgFilBufSize_def DEFAULT_BUFFER_SIZE_def Let_def)
    then show ?thesis unfolding m by (intro mapChunks_mapBytes) simp_all
  qed
qed

lemma bkInv_primed:
  assumes cfg: "mainMapConfig d r bg (length bkFil) = Inr cfg" and n: "length bkFil < 2 ^ 32"
  shows "bkInv cfg bkFil
       (initialState\<lparr>bkFilBuffer := take (bkFilBufSize cfg) bkFil, bkFilOff := bkFilBufSize cfg\<rparr>)"
proof -
  note W = mainMapConfig_Inr[OF cfg]
  have "bkFilBufSize cfg dvd bkFilSize cfg" unfolding W(5) by (simp add: dvd_minus_mod)
  moreover have "0 < bkFilSize cfg"
  proof -
    have "length bkFil mod bkFilBufSize cfg < bkFilBufSize cfg" using W(3) by simp
    with W(4) show ?thesis unfolding W(5) by simp
  qed
  moreover have "bkFilSize cfg \<le> length bkFil" unfolding W(5) by simp
  ultimately show ?thesis using W(3) n by (simp add: bkInv_def initialState_def)
qed

lemma mainMap_written:
  assumes og: "\<forall>n. og = Some n \<longrightarrow> 0 < n \<and> n < 2 ^ 32"
    and run: "mainMap d r bg og bkFil orgFil = Some res"
  shows "\<exists>ws. written res = concat (map offsetBytes ws) \<and> length ws \<le> length orgFil \<and>
           (\<forall>st'. res = Inr st' \<longrightarrow> length ws = length orgFil) \<and>
           (\<not> d \<longrightarrow> noRepeat (\<lambda>x. - 1) orgFil ws) \<and>
           (length bkFil < 2 ^ 32 \<longrightarrow>
              (\<forall>i<length ws. unat (ws ! i) < length bkFil - length bkFil mod
                     min (length bkFil) (case bg of None \<Rightarrow> DEFAULT_BUFFER_SIZE | Some k \<Rightarrow> k) \<and>
                   bkFil ! unat (ws ! i) = orgFil ! i))"
proof (cases "mainMapConfig d r bg (length bkFil)")
  case (Inl e)
  with run have "res = Inl (e, [])" by (simp add: mainMap_def)
  then show ?thesis by (auto simp add: written_def intro!: exI[of _ "[]"])
next
  case (Inr cfg)
  let ?st = "initialState\<lparr>bkFilBuffer := take (bkFilBufSize cfg) bkFil, bkFilOff := bkFilBufSize cfg\<rparr>"
  note W = mainMapConfig_Inr[OF Inr]
  from run have "mapBytes cfg bkFil orgFil ?st = Some res"
    unfolding mainMap_mapBytes[OF og Inr] .
  from mapBytes_written[OF this] obtain ws where ws:
    "written res = bkCd ?st @ concat (map offsetBytes ws)" "length ws \<le> length orgFil"
    "\<forall>st'. res = Inr st' \<longrightarrow> length ws = length orgFil"
    "\<not> allowDuplicates cfg \<longrightarrow> noRepeat (offsetDigest ?st) orgFil ws"
    "bkInv cfg bkFil ?st \<longrightarrow>
        (\<forall>i<length ws. unat (ws ! i) < bkFilSize cfg \<and> bkFil ! unat (ws ! i) = orgFil ! i)"
    by blast
  have "written res = concat (map offsetBytes ws)" using ws(1) by (simp add: initialState_def)
  moreover have "\<not> d \<longrightarrow> noRepeat (\<lambda>x. - 1) orgFil ws"
    using ws(4) W(1) by (simp add: initialState_def)
  moreover have "length bkFil < 2 ^ 32 \<longrightarrow>
              (\<forall>i<length ws. unat (ws ! i) < length bkFil - length bkFil mod
                     min (length bkFil) (case bg of None \<Rightarrow> DEFAULT_BUFFER_SIZE | Some k \<Rightarrow> k) \<and>
                   bkFil ! unat (ws ! i) = orgFil ! i)"
    using ws(5) bkInv_primed[OF Inr] W(5,6) by simp
  ultimately show ?thesis using ws(2,3) by blast
qed

lemma mainMap_Inr:
  assumes "mainMap d r bg og bkFil orgFil = Some (Inr st)"
  obtains cfg where "mainMapConfig d r bg (length bkFil) = Inr cfg"
    and "mapBytes cfg bkFil orgFil
       (initialState\<lparr>bkFilBuffer := take (bkFilBufSize cfg) bkFil, bkFilOff := bkFilBufSize cfg\<rparr>)
       = Some (Inr st)"
proof (cases "mainMapConfig d r bg (length bkFil)")
  case (Inl e)
  with assms show ?thesis by (simp add: mainMap_def)
next
  case (Inr cfg)
  let ?st = "initialState\<lparr>bkFilBuffer := take (bkFilBufSize cfg) bkFil, bkFilOff := bkFilBufSize cfg\<rparr>"
  note W = mainMapConfig_Inr[OF Inr]
  have rd: "freadBkFil bkFil (bkFilBufSize cfg) initialState = Inr ?st"
    using W(4) by (simp add: freadBkFil_def initialState_def)
  from assms have "mapChunks cfg bkFil (length orgFil) (mainOrgFilBufSize og (length orgFil)) orgFil ?st
      = Some (Inr st)"
    by (simp add: mainMap_def Inr mapOffsets_def rd)
  from mapChunks_Inr[OF this] Inr show ?thesis by (rule that[rotated])
qed

lemma mainMap_Inr_written:
  assumes run: "mainMap d r bg og bkFil orgFil = Some (Inr st)"
  shows "\<exists>ws. bkCd st = concat (map offsetBytes ws) \<and> length ws = length orgFil \<and>
           (length bkFil < 2 ^ 32 \<longrightarrow>
              (\<forall>i<length ws. unat (ws ! i) < length bkFil \<and> bkFil ! unat (ws ! i) = orgFil ! i))"
proof -
  from run obtain cfg where cfg: "mainMapConfig d r bg (length bkFil) = Inr cfg"
    and m: "mapBytes cfg bkFil orgFil
       (initialState\<lparr>bkFilBuffer := take (bkFilBufSize cfg) bkFil, bkFilOff := bkFilBufSize cfg\<rparr>)
       = Some (Inr st)"
    by (rule mainMap_Inr)
  let ?st = "initialState\<lparr>bkFilBuffer := take (bkFilBufSize cfg) bkFil, bkFilOff := bkFilBufSize cfg\<rparr>"
  note W = mainMapConfig_Inr[OF cfg]
  from mapBytes_written[OF m] obtain ws where ws:
    "written (Inr st) = bkCd ?st @ concat (map offsetBytes ws)"
    "\<forall>st'. Inr st = (Inr st' :: (error \<times> byte_t list) + mapState) \<longrightarrow> length ws = length orgFil"
    "bkInv cfg bkFil ?st \<longrightarrow>
        (\<forall>i<length ws. unat (ws ! i) < bkFilSize cfg \<and> bkFil ! unat (ws ! i) = orgFil ! i)"
    by blast
  have a: "bkCd st = concat (map offsetBytes ws)" using ws(1) by (simp add: initialState_def written_def)
  have b: "length ws = length orgFil" using ws(2) by simp
  have c: "\<forall>i<length ws. unat (ws ! i) < length bkFil \<and> bkFil ! unat (ws ! i) = orgFil ! i"
    if "length bkFil < 2 ^ 32"
  proof -
    from ws(3) bkInv_primed[OF cfg that]
    have "\<forall>i<length ws. unat (ws ! i) < bkFilSize cfg \<and> bkFil ! unat (ws ! i) = orgFil ! i" by simp
    moreover have "bkFilSize cfg \<le> length bkFil" unfolding W(5) by simp
    ultimately show ?thesis by (meson less_le_trans)
  qed
  from a b c show ?thesis by blast
qed

lemma mainMap_livelock:
  assumes og: "\<forall>n. og = Some n \<longrightarrow> 0 < n \<and> n < 2 ^ 32" and n: "length bkFil < 2 ^ 32"
    and cfg: "mainMapConfig False r bg (length bkFil) = Inr cfg"
    and one: "\<forall>i<bkFilSize cfg. \<forall>j<bkFilSize cfg. bkFil ! i = b \<and> bkFil ! j = b \<longrightarrow> i = j"
    and b: "b \<in> set xs"
    and run: "mainMap False r bg og bkFil xs = Some (Inr st)"
  shows "mainMap False r bg og bkFil (xs @ b # ys) = None"
proof -
  note W = mainMapConfig_Inr[OF cfg]
  from run have "mapBytes cfg bkFil xs
       (initialState\<lparr>bkFilBuffer := take (bkFilBufSize cfg) bkFil, bkFilOff := bkFilBufSize cfg\<rparr>)
       = Some (Inr st)"
    unfolding mainMap_mapBytes[OF og cfg] .
  from mapBytes_livelock[OF this bkInv_primed[OF cfg n] _ b one] W(1)
  show ?thesis unfolding mainMap_mapBytes[OF og cfg] by simp
qed

lemma mainMap_absent:
  assumes og: "\<forall>n. og = Some n \<longrightarrow> 0 < n \<and> n < 2 ^ 32" and n: "length bkFil < 2 ^ 32"
    and cfg: "mainMapConfig d r bg (length bkFil) = Inr cfg"
    and W: "2 \<le> bkFilBufSize cfg"
    and ab: "b \<notin> set (take (bkFilSize cfg) bkFil)"
    and run: "mainMap d r bg og bkFil xs = Some (Inr st)"
  shows "mainMap d r bg og bkFil (xs @ b # ys) = Some (Inl (NotEnoughEntropy, bkCd st))"
    and "bkFilOff st \<le> bkFilSize cfg"
proof -
  let ?st0 = "initialState\<lparr>bkFilBuffer := take (bkFilBufSize cfg) bkFil, bkFilOff := bkFilBufSize cfg\<rparr>"
  from run have r: "mapBytes cfg bkFil xs ?st0 = Some (Inr st)"
    unfolding mainMap_mapBytes[OF og cfg] .
  have c: "unat (bkFilBufPos ?st0) < bkFilBufSize cfg" using W by (simp add: initialState_def)
  from mapBytes_absent[OF r bkInv_primed[OF cfg n] c W ab]
  show "mainMap d r bg og bkFil (xs @ b # ys) = Some (Inl (NotEnoughEntropy, bkCd st))"
    unfolding mainMap_mapBytes[OF og cfg] .
  from mapBytes_inv[OF r bkInv_primed[OF cfg n] c] have i: "bkInv cfg bkFil st" by simp
  from bkInv_window[OF i] i show "bkFilOff st \<le> bkFilSize cfg" by (simp add: bkInv_def)
qed

lemma mainMap_never_maps_absent:
  assumes og: "\<forall>n. og = Some n \<longrightarrow> 0 < n \<and> n < 2 ^ 32" and n: "length bkFil < 2 ^ 32"
    and b: "b \<in> set xs" and run: "mainMap d r bg og bkFil xs = Some (Inr st)"
  shows "b \<in> set bkFil"
proof -
  from mainMap_written[OF og run] n obtain ws where
    w0: "written (Inr st) = concat (map offsetBytes ws)"
    and l: "\<forall>st'. Inr st = (Inr st' :: (error \<times> byte_t list) + mapState) \<longrightarrow> length ws = length xs"
    and v: "\<forall>i<length ws. unat (ws ! i) < length bkFil - length bkFil mod
                     min (length bkFil) (case bg of None \<Rightarrow> DEFAULT_BUFFER_SIZE | Some k \<Rightarrow> k) \<and>
                   bkFil ! unat (ws ! i) = xs ! i"
    by blast
  from l have l': "length ws = length xs" by simp
  from b obtain i where i: "i < length xs" "xs ! i = b" by (auto simp add: in_set_conv_nth)
  with v l' have "unat (ws ! i) < length bkFil" "bkFil ! unat (ws ! i) = b" by auto
  then show ?thesis by (metis nth_mem)
qed

lemma only_offset_xa:
  "\<forall>i<bkFilSize \<lparr>allowDuplicates = False, resetAtEndOfBuf = False, bkFilSize = 2, bkFilBufSize = 2\<rparr>.
   \<forall>j<bkFilSize \<lparr>allowDuplicates = False, resetAtEndOfBuf = False, bkFilSize = 2, bkFilBufSize = 2\<rparr>.
      [120, 97 :: byte_t] ! i = 97 \<and> [120, 97 :: byte_t] ! j = 97 \<longrightarrow> i = j"
proof -
  have "i = 1" if "i < 2" "[120, 97 :: byte_t] ! i = 97" for i :: nat
  proof (cases "i = 0")
    case True
    with that(2) show ?thesis by simp
  next
    case False
    with that(1) show ?thesis by simp
  qed
  then show ?thesis by auto
qed

lemma only_offset_abc:
  "\<forall>i<bkFilSize \<lparr>allowDuplicates = False, resetAtEndOfBuf = False, bkFilSize = 3, bkFilBufSize = 3\<rparr>.
   \<forall>j<bkFilSize \<lparr>allowDuplicates = False, resetAtEndOfBuf = False, bkFilSize = 3, bkFilBufSize = 3\<rparr>.
      [97, 98, 99 :: byte_t] ! i = 98 \<and> [97, 98, 99 :: byte_t] ! j = 98 \<longrightarrow> i = j"
proof -
  have "i = 1" if "i < 3" "[97, 98, 99 :: byte_t] ! i = 98" for i :: nat
  proof -
    from that(1) consider "i = 0" | "i = 1" | "i = 2" by linarith
    then show ?thesis using that(2) by cases simp_all
  qed
  then show ?thesis by auto
qed

lemmas run_simps = mainMap_def mainMapConfig_def mainOrgFilBufSize_def DEFAULT_BUFFER_SIZE_def
  mapOffsets_def initialState_def freadBkFil_def mapChunks.simps mapChunk.simps scanBkFil.simps
  refillBuffer_def sizeMinus1_def offsetBytes_def Let_def written_def

section \<open>The claims\<close>

text \<open>Claim C1, as amended. Whenever the mapping branch returns normally for a book file
  shorter than \<open>2 ^ 32\<close> bytes, extracting the book code it wrote against the same book file
  gives back the original file, for any window and chunk sizes of the mapping; the book code is
  extracted in chunks of whole 4-byte units and \<open>extrFilBuffer\<close> holds a chunk's bytes.\<close>

theorem extract_of_mapped:
  assumes "length bkFil < 2 ^ 32"
    and "mainMap duplicates reset bkFilBufSizeGiven orgFilBufSizeGiven bkFil orgFil = Some (Inr st)"
    and "0 < bkCdBufSize" and "4 dvd bkCdBufSize" and "bkCdBufSize div 4 < 2 ^ 32"
    and "bkCdBufSize div 4 \<le> length extrFilBuffer"
  shows "extractBytes bkCdBufSize bkFil (bkCd st) extrFilBuffer [] = Some (Inr orgFil)"
proof -
  let ?f = "\<lambda>i. of_int (fgetcAt bkFil (unat (bkCdBufferAt (bkCd st) i))) :: byte_t"
  from mainMap_Inr_written[OF assms(2)] assms(1) obtain ws where
    ws: "bkCd st = concat (map offsetBytes ws)" "length ws = length orgFil"
    and v: "\<forall>i<length ws. unat (ws ! i) < length bkFil \<and> bkFil ! unat (ws ! i) = orgFil ! i"
    by blast
  have len: "length (bkCd st) div 4 = length orgFil"
    unfolding ws(1) by (simp add: length_concat_offsetBytes ws(2))
  have "?f i = orgFil ! i" if "i < length orgFil" for i
  proof -
    from that ws(2) have i: "i < length ws" by simp
    have "bkCdBufferAt (bkCd st) i = ws ! i"
      using bkCdBufferAt_concat[OF i, of "[]"] ws(1) by simp
    moreover from v i have "unat (ws ! i) < length bkFil" "bkFil ! unat (ws ! i) = orgFil ! i"
      by auto
    ultimately show ?thesis by (simp add: of_int_fgetcAt)
  qed
  then have "map ?f [0..<length orgFil] = orgFil"
    by (intro nth_equalityI) simp_all
  then show ?thesis
    using extractBytes_run[OF assms(3-6), of bkFil "bkCd st" "[]"] len by simp
qed

theorem extract_of_mapped_witness:
  "length [97, 98, 99, 97, 98, 99 :: byte_t] < 2 ^ 32 \<and>
   (0::nat) < 8 \<and> (4::nat) dvd 8 \<and> (8::nat) div 4 < 2 ^ 32 \<and> (8::nat) div 4 \<le> length [0, 0 :: byte_t] \<and>
   (\<exists>st. mainMap False False None (Some 2) [97, 98, 99, 97, 98, 99] [97, 97, 99] = Some (Inr st) \<and>
      bkCd st = [0, 0, 0, 0, 3, 0, 0, 0, 5, 0, 0, 0] \<and>
      extractBytes 8 [97, 98, 99, 97, 98, 99] (bkCd st) [0, 0] [] = Some (Inr [97, 97, 99]))"
proof -
  have h: "length [97, 98, 99, 97, 98, 99 :: byte_t] < 2 ^ 32" by simp
  have g: "(0::nat) < 8" "(4::nat) dvd 8" "(8::nat) div 4 < 2 ^ 32"
    "(8::nat) div 4 \<le> length [0, 0 :: byte_t]" by simp_all
  obtain st where r: "mainMap False False None (Some 2) [97, 98, 99, 97, 98, 99] [97, 97, 99] = Some (Inr st)"
    and o: "bkCd st = [0, 0, 0, 0, 3, 0, 0, 0, 5, 0, 0, 0]"
    by (simp add: run_simps)
  from extract_of_mapped[OF h r g] h g r o show ?thesis by blast
qed

text \<open>The claim C1 as it is written fails: the byte 99 is in the book file \<open>[97, 98, 99]\<close>, but
  with a window of 2 bytes only the first 2 bytes of the book file are used, the mapping of the
  original file \<open>[99]\<close> stops with the error and an empty book code, and extracting that book
  code gives the empty file.\<close>

theorem extract_of_mapped_counterexample:
  "99 \<in> set [97, 98, 99 :: byte_t] \<and>
   mainMap False False (Some 2) None [97, 98, 99] [99] = Some (Inl (NotEnoughEntropy, [])) \<and>
   extractBytes 8 [97, 98, 99] [] [0, 0] [] = Some (Inr [])"
proof -
  have "mainMap False False (Some 2) None [97, 98, 99] [99] = Some (Inl (NotEnoughEntropy, []))"
    by (simp add: run_simps)
  moreover have "extractBytes 8 [97, 98, 99] [] [0, 0] [] = Some (Inr [])"
    by (simp add: extractBytes.simps extractChunk.simps)
  ultimately show ?thesis by simp
qed

text \<open>Claim C2. Every offset written to the book code lies inside the book file, and the
  byte of the book file at that offset is the byte of the original file at the same position
  in the sequence. This holds for what a run has written when it ends, normally or not. The
  book file is shorter than \<open>2 ^ 32\<close> bytes, so that every offset fits the 32-bit code.\<close>

theorem mainMap_offsets_valid:
  assumes "\<forall>n. orgFilBufSizeGiven = Some n \<longrightarrow> 0 < n \<and> n < 2 ^ 32"
    and "length bkFil < 2 ^ 32"
    and "mainMap duplicates reset bkFilBufSizeGiven orgFilBufSizeGiven bkFil orgFil = Some res"
    and "i < length (written res) div 4"
  shows "i < length orgFil \<and> unat (bkCdBufferAt (written res) i) < length bkFil \<and>
         bkFil ! unat (bkCdBufferAt (written res) i) = orgFil ! i"
proof -
  from mainMap_written[OF assms(1,3)] assms(2) obtain ws where
    ws: "written res = concat (map offsetBytes ws)" "length ws \<le> length orgFil"
    and v: "\<forall>i<length ws. unat (ws ! i) < length bkFil - length bkFil mod
                     min (length bkFil) (case bkFilBufSizeGiven of None \<Rightarrow> DEFAULT_BUFFER_SIZE | Some k \<Rightarrow> k) \<and>
                   bkFil ! unat (ws ! i) = orgFil ! i"
    by blast
  from assms(4) have i: "i < length ws" unfolding ws(1) by (simp add: length_concat_offsetBytes)
  have "bkCdBufferAt (written res) i = ws ! i"
    using bkCdBufferAt_concat[OF i, of "[]"] ws(1) by simp
  with v[rule_format, OF i] i ws(2) show ?thesis by auto
qed

theorem mainMap_offsets_valid_witness:
  "length [97, 98, 99, 97, 98, 99 :: byte_t] < 2 ^ 32 \<and>
   (\<exists>res. mainMap False False None None [97, 98, 99, 97, 98, 99] [97, 97] = Some res \<and>
      written res = [0, 0, 0, 0, 3, 0, 0, 0] \<and> (1::nat) < length (written res) div 4 \<and>
      unat (bkCdBufferAt (written res) 1) < length [97, 98, 99, 97, 98, 99 :: byte_t] \<and>
      [97, 98, 99, 97, 98, 99 :: byte_t] ! unat (bkCdBufferAt (written res) 1) = [97, 97] ! 1)"
proof -
  have h: "\<forall>n. (None :: nat option) = Some n \<longrightarrow> 0 < n \<and> n < 2 ^ 32"
    "length [97, 98, 99, 97, 98, 99 :: byte_t] < 2 ^ 32" by simp_all
  obtain res where r: "mainMap False False None None [97, 98, 99, 97, 98, 99] [97, 97] = Some res"
    and o: "written res = [0, 0, 0, 0, 3, 0, 0, 0]"
    by (simp add: run_simps)
  have i: "(1::nat) < length (written res) div 4" unfolding o by simp
  from mainMap_offsets_valid[OF h r i] h(2) r o i show ?thesis by blast
qed

text \<open>Claim C3. When the mapping branch returns normally, the book code is one 4-byte offset
  for each byte of the original file, in the order of the bytes, so its length is 4 times the
  length of the original file.\<close>

theorem mainMap_size_law:
  assumes "mainMap duplicates reset bkFilBufSizeGiven orgFilBufSizeGiven bkFil orgFil = Some (Inr st)"
  shows "length (bkCd st) = 4 * length orgFil \<and>
         (\<exists>ws. length ws = length orgFil \<and> bkCd st = concat (map offsetBytes ws))"
proof -
  from mainMap_Inr_written[OF assms] obtain ws where
    "bkCd st = concat (map offsetBytes ws)" "length ws = length orgFil"
    by blast
  then show ?thesis
    by (auto simp add: length_concat_offsetBytes)
qed

theorem mainMap_size_law_witness:
  "\<exists>st. mainMap False False None (Some 2) [97, 98, 99, 97, 98, 99] [97, 97, 99] = Some (Inr st) \<and>
         bkCd st = [0, 0, 0, 0, 3, 0, 0, 0, 5, 0, 0, 0] \<and>
         length (bkCd st) = 4 * length [97, 97, 99 :: byte_t]"
proof -
  obtain st where r: "mainMap False False None (Some 2) [97, 98, 99, 97, 98, 99] [97, 97, 99] = Some (Inr st)"
    and o: "bkCd st = [0, 0, 0, 0, 3, 0, 0, 0, 5, 0, 0, 0]"
    by (simp add: run_simps)
  from mainMap_size_law[OF r] r o show ?thesis by blast
qed

text \<open>Claim C4, as amended. Let \<open>b\<close> be a byte value that the book file lacks, the book file
  shorter than \<open>2 ^ 32\<close> bytes and the window at least 2 bytes. When the bytes \<open>xs\<close> of the
  original file before an occurrence of \<open>b\<close> are all mapped (the run on \<open>xs\<close> alone returns
  normally), the run stops at \<open>b\<close> with the error, having written the offsets for \<open>xs\<close>. And
  no original file that contains \<open>b\<close> makes the run return normally.\<close>

theorem mainMap_absent_byte:
  assumes "\<forall>n. orgFilBufSizeGiven = Some n \<longrightarrow> 0 < n \<and> n < 2 ^ 32"
    and "length bkFil < 2 ^ 32" and "2 \<le> length bkFil"
    and "\<forall>n. bkFilBufSizeGiven = Some n \<longrightarrow> 2 \<le> n"
    and "b \<notin> set bkFil"
    and "mainMap duplicates reset bkFilBufSizeGiven orgFilBufSizeGiven bkFil xs = Some (Inr st)"
  shows "mainMap duplicates reset bkFilBufSizeGiven orgFilBufSizeGiven bkFil (xs @ b # ys)
           = Some (Inl (NotEnoughEntropy, bkCd st)) \<and>
         (\<forall>zs st'. b \<in> set zs \<longrightarrow>
            mainMap duplicates reset bkFilBufSizeGiven orgFilBufSizeGiven bkFil zs \<noteq> Some (Inr st'))"
proof -
  let ?W = "min (length bkFil) (case bkFilBufSizeGiven of None \<Rightarrow> DEFAULT_BUFFER_SIZE | Some k \<Rightarrow> k)"
  have W: "2 \<le> ?W"
    using assms(3,4) by (cases bkFilBufSizeGiven) (simp_all add: DEFAULT_BUFFER_SIZE_def)
  obtain cfg where cfg: "mainMapConfig duplicates reset bkFilBufSizeGiven (length bkFil) = Inr cfg"
  proof (cases "mainMapConfig duplicates reset bkFilBufSizeGiven (length bkFil)")
    case (Inl e)
    from mainMapConfig_Inl_size[OF this] W show ?thesis by simp
  next
    case (Inr c)
    then show ?thesis by (rule that)
  qed
  from mainMapConfig_Inr(6)[OF cfg] W have W': "2 \<le> bkFilBufSize cfg" by simp
  from assms(5) have ab: "b \<notin> set (take (bkFilSize cfg) bkFil)" by (auto dest: in_set_takeD)
  have "mainMap duplicates reset bkFilBufSizeGiven orgFilBufSizeGiven bkFil (xs @ b # ys)
           = Some (Inl (NotEnoughEntropy, bkCd st))"
    by (rule mainMap_absent(1)[OF assms(1,2) cfg W' ab assms(6)])
  moreover have "mainMap duplicates reset bkFilBufSizeGiven orgFilBufSizeGiven bkFil zs \<noteq> Some (Inr st')"
    if "b \<in> set zs" for zs st'
    using mainMap_never_maps_absent[OF assms(1,2) that] assms(5) by blast
  ultimately show ?thesis by blast
qed

theorem mainMap_absent_byte_witness:
  "length [97, 98, 99, 97, 98, 99 :: byte_t] < 2 ^ 32 \<and> 2 \<le> length [97, 98, 99, 97, 98, 99 :: byte_t] \<and>
   (122 :: byte_t) \<notin> set [97, 98, 99, 97, 98, 99] \<and>
   (\<exists>st. mainMap False False (Some 3) (Some 2) [97, 98, 99, 97, 98, 99] [97, 98] = Some (Inr st) \<and>
      bkCd st = [0, 0, 0, 0, 1, 0, 0, 0]) \<and>
   mainMap False False (Some 3) (Some 2) [97, 98, 99, 97, 98, 99] [97, 98, 122, 97]
     = Some (Inl (NotEnoughEntropy, [0, 0, 0, 0, 1, 0, 0, 0]))"
proof -
  have h: "\<forall>n. Some (2::nat) = Some n \<longrightarrow> 0 < n \<and> n < 2 ^ 32"
    "length [97, 98, 99, 97, 98, 99 :: byte_t] < 2 ^ 32" "2 \<le> length [97, 98, 99, 97, 98, 99 :: byte_t]"
    "\<forall>n. Some (3::nat) = Some n \<longrightarrow> 2 \<le> n"
    "(122 :: byte_t) \<notin> set [97, 98, 99, 97, 98, 99]" by simp_all
  obtain st where r: "mainMap False False (Some 3) (Some 2) [97, 98, 99, 97, 98, 99] [97, 98] = Some (Inr st)"
    and o: "bkCd st = [0, 0, 0, 0, 1, 0, 0, 0]"
    by (simp add: run_simps)
  from mainMap_absent_byte[OF h r, of "[97]"] h(2,3,5) r o show ?thesis by auto
qed

text \<open>The claim C4 as it is written fails: the book file \<open>[120, 97]\<close> lacks the byte 99, and
  the run on the original file \<open>[97, 97, 99]\<close> neither stops with the error nor returns: the
  second byte 97 has no offset but the one in the digest, and its scan never ends.\<close>

theorem mainMap_absent_byte_counterexample:
  "(99 :: byte_t) \<notin> set [120, 97] \<and> mainMap False False None None [120, 97] [97, 97, 99] = None"
proof -
  have h: "\<forall>n. (None :: nat option) = Some n \<longrightarrow> 0 < n \<and> n < 2 ^ 32"
    "length [120, 97 :: byte_t] < 2 ^ 32" by simp_all
  have cfg: "mainMapConfig False False None (length [120, 97 :: byte_t])
             = Inr \<lparr>allowDuplicates = False, resetAtEndOfBuf = False, bkFilSize = 2, bkFilBufSize = 2\<rparr>"
    by (simp add: mainMapConfig_def DEFAULT_BUFFER_SIZE_def)
  note one = only_offset_xa
  obtain st where r: "mainMap False False None None [120, 97] [97] = Some (Inr st)"
    by (simp add: run_simps)
  from mainMap_livelock[OF h cfg one _ r, of "[99]"] show ?thesis by simp
qed

text \<open>Claim C5, as amended. With duplicates disallowed a candidate is accepted only when its
  offset differs from the digest entry of its byte value, whatever the count of soft repeats,
  and an acceptance leaves the count at 0. From a count of 2 on, a candidate at the offset of
  the digest entry sends the scan to the block \<open>refillBuffer\<close>: the window is reloaded and the
  scan goes on there. So when the used part of the book file holds the byte value \<open>b\<close> at one
  offset only and \<open>b\<close> has been mapped before (\<open>b\<close> is among the mapped bytes \<open>xs\<close>), the scan
  for the next \<open>b\<close> never ends.\<close>

theorem mainMap_repeat_not_accepted:
  assumes "\<forall>n. orgFilBufSizeGiven = Some n \<longrightarrow> 0 < n \<and> n < 2 ^ 32"
    and "length bkFil < 2 ^ 32"
    and "mainMapConfig False reset bkFilBufSizeGiven (length bkFil) = Inr cfg"
    and "\<forall>i<bkFilSize cfg. \<forall>j<bkFilSize cfg. bkFil ! i = b \<and> bkFil ! j = b \<longrightarrow> i = j"
    and "b \<in> set xs"
    and "mainMap False reset bkFilBufSizeGiven orgFilBufSizeGiven bkFil xs = Some (Inr st)"
  shows "mainMap False reset bkFilBufSizeGiven orgFilBufSizeGiven bkFil (xs @ b # ys) = None \<and>
         (\<forall>l s s'. scanBkFil cfg bkFil b l s = Some (Mapped s') \<longrightarrow>
            repeatsFound s' = 0 \<and>
            (\<exists>w. bkCd s' = bkCd s @ offsetBytes w \<and> w \<noteq> offsetDigest s b)) \<and>
         (\<forall>s. unat (bkFilBufPos s) < bkFilBufSize cfg \<and> bkFilBuffer s ! unat (bkFilBufPos s) = b \<and>
              offsetDigest s b = bkFilBufPos s + bkFilPos s \<and> 2 \<le> repeatsFound s \<longrightarrow>
            scanBkFil cfg bkFil b BufLoop s =
              (case refillBuffer cfg bkFil b s of
                 Inl (e, out) \<Rightarrow> Some (Aborted e out)
               | Inr s' \<Rightarrow> scanBkFil cfg bkFil b BufLoop (s'\<lparr>bkFilBufPos := bkFilBufPos s' + 1\<rparr>)))"
proof -
  from mainMapConfig_Inr(1)[OF assms(3)] have nd: "\<not> allowDuplicates cfg" by simp
  have 1: "mainMap False reset bkFilBufSizeGiven orgFilBufSizeGiven bkFil (xs @ b # ys) = None"
    by (rule mainMap_livelock[OF assms])
  have 2: "repeatsFound s' = 0 \<and> (\<exists>w. bkCd s' = bkCd s @ offsetBytes w \<and> w \<noteq> offsetDigest s b)"
    if "scanBkFil cfg bkFil b l s = Some (Mapped s')" for l s s'
    using scanBkFil_wrote_aux[OF that] nd by (auto simp add: scanWrote_def)
  have 3: "scanBkFil cfg bkFil b BufLoop s =
              (case refillBuffer cfg bkFil b s of
                 Inl (e, out) \<Rightarrow> Some (Aborted e out)
               | Inr s' \<Rightarrow> scanBkFil cfg bkFil b BufLoop (s'\<lparr>bkFilBufPos := bkFilBufPos s' + 1\<rparr>))"
    if "unat (bkFilBufPos s) < bkFilBufSize cfg \<and> bkFilBuffer s ! unat (bkFilBufPos s) = b \<and>
              offsetDigest s b = bkFilBufPos s + bkFilPos s \<and> 2 \<le> repeatsFound s" for s
    using that by (intro scanBkFil_repeat_refill nd) simp_all
  from 1 2 3 show ?thesis by blast
qed

theorem mainMap_repeat_not_accepted_witness:
  "length [97, 98, 99 :: byte_t] < 2 ^ 32 \<and>
   mainMapConfig False False None (length [97, 98, 99 :: byte_t])
     = Inr \<lparr>allowDuplicates = False, resetAtEndOfBuf = False, bkFilSize = 3, bkFilBufSize = 3\<rparr> \<and>
   (98 :: byte_t) \<in> set [97, 98] \<and>
   (\<exists>st. mainMap False False None None [97, 98, 99] [97, 98] = Some (Inr st) \<and>
      bkCd st = [0, 0, 0, 0, 1, 0, 0, 0]) \<and>
   mainMap False False None None [97, 98, 99] [97, 98, 98, 99] = None"
proof -
  have h: "\<forall>n. (None :: nat option) = Some n \<longrightarrow> 0 < n \<and> n < 2 ^ 32"
    "length [97, 98, 99 :: byte_t] < 2 ^ 32" by simp_all
  have cfg: "mainMapConfig False False None (length [97, 98, 99 :: byte_t])
     = Inr \<lparr>allowDuplicates = False, resetAtEndOfBuf = False, bkFilSize = 3, bkFilBufSize = 3\<rparr>"
    by (simp add: mainMapConfig_def DEFAULT_BUFFER_SIZE_def)
  have b: "(98 :: byte_t) \<in> set [97, 98]" by simp
  obtain st where r: "mainMap False False None None [97, 98, 99] [97, 98] = Some (Inr st)"
    and o: "bkCd st = [0, 0, 0, 0, 1, 0, 0, 0]"
    by (simp add: run_simps)
  from mainMap_repeat_not_accepted[OF h cfg only_offset_abc b r, of "[99]"] h(2) cfg b r o
  show ?thesis by auto
qed

text \<open>The claim C5 as it is written fails: in the book file \<open>[120, 97]\<close> the byte 97 has the
  single offset 1. The second byte of the original file \<open>[97, 97]\<close> meets that offset as a soft
  repeat twice; the third time the candidate is not accepted but the window is reloaded, and so
  on for ever: the run does not end, where the claim has it write offset 1 again.\<close>

theorem mainMap_repeat_not_accepted_counterexample:
  "mainMap False False None None [120, 97] [97, 97] = None \<and>
   scanBkFil \<lparr>allowDuplicates = False, resetAtEndOfBuf = False, bkFilSize = 2, bkFilBufSize = 2\<rparr>
     [120, 97] 97 BufLoop
     \<lparr>bkFilOff = 2, bkFilBuffer = [120, 97], bkFilPos = 0, bkFilBufPos = 1,
      offsetDigest = (offsetDigest initialState)(97 := 1), repeatsFound = 2, bkCd = [1, 0, 0, 0]\<rparr>
     = None"
proof -
  let ?cfg = "\<lparr>allowDuplicates = False, resetAtEndOfBuf = False, bkFilSize = 2, bkFilBufSize = 2\<rparr>"
  let ?st = "\<lparr>bkFilOff = 2, bkFilBuffer = [120, 97 :: byte_t], bkFilPos = 0, bkFilBufPos = 1,
      offsetDigest = (offsetDigest initialState)(97 := 1), repeatsFound = 2, bkCd = [1, 0, 0, 0]\<rparr>"
  have i: "bkInv ?cfg [120, 97] ?st" by (simp add: bkInv_def initialState_def)
  have o: "\<forall>i<bkFilSize ?cfg. [120, 97 :: byte_t] ! i = 97 \<longrightarrow> i = unat (offsetDigest ?st 97)"
    using only_offset_xa by (auto simp add: numeral_2_eq_2)
  have l: "scanBkFil ?cfg [120, 97] 97 BufLoop ?st = None"
    by (rule scanBkFil_livelock[OF i _ _ o]) simp_all
  have h: "\<forall>n. (None :: nat option) = Some n \<longrightarrow> 0 < n \<and> n < 2 ^ 32"
    "length [120, 97 :: byte_t] < 2 ^ 32" by simp_all
  have cfg: "mainMapConfig False False None (length [120, 97 :: byte_t])
             = Inr \<lparr>allowDuplicates = False, resetAtEndOfBuf = False, bkFilSize = 2, bkFilBufSize = 2\<rparr>"
    by (simp add: mainMapConfig_def DEFAULT_BUFFER_SIZE_def)
  obtain st where r: "mainMap False False None None [120, 97] [97] = Some (Inr st)"
    by (simp add: run_simps)
  from mainMap_livelock[OF h cfg only_offset_xa _ r, of "[]"] l show ?thesis by simp
qed

text \<open>Claim C6. With duplicates disallowed, two offsets written one after the other for the
  same byte value are never the same: if the bytes at positions \<open>i < j\<close> of the original file
  are equal and no byte between them has that value, the offsets written for them differ. The
  code never accepts the offset of the digest entry, whatever the window holds and whatever the
  count of soft repeats is, so the statement needs neither of the claim's two conditions.\<close>

theorem mainMap_no_immediate_repeat:
  assumes "\<forall>n. orgFilBufSizeGiven = Some n \<longrightarrow> 0 < n \<and> n < 2 ^ 32"
    and "mainMap False reset bkFilBufSizeGiven orgFilBufSizeGiven bkFil orgFil = Some res"
    and "i < j" and "j < length (written res) div 4"
    and "orgFil ! i = orgFil ! j"
    and "\<forall>k. i < k \<and> k < j \<longrightarrow> orgFil ! k \<noteq> orgFil ! i"
  shows "bkCdBufferAt (written res) i \<noteq> bkCdBufferAt (written res) j"
proof -
  from mainMap_written[OF assms(1,2)] obtain ws where
    ws: "written res = concat (map offsetBytes ws)" "length ws \<le> length orgFil"
    and nr: "noRepeat (\<lambda>x. - 1) orgFil ws"
    by blast
  from assms(4) have j: "j < length ws" unfolding ws(1) by (simp add: length_concat_offsetBytes)
  with assms(3) have i: "i < length ws" by simp
  have "bkCdBufferAt (written res) i = ws ! i" "bkCdBufferAt (written res) j = ws ! j"
    using bkCdBufferAt_concat[OF i, of "[]"] bkCdBufferAt_concat[OF j, of "[]"] ws(1) by simp_all
  moreover have "ws ! i \<noteq> ws ! j"
    using noRepeat_nth[OF nr] assms(3,5,6) j ws(2) by (meson less_le_trans)
  ultimately show ?thesis by simp
qed

theorem mainMap_no_immediate_repeat_witness:
  "\<exists>res. mainMap False False None None [97, 98, 99, 97, 98, 99] [97, 98, 97] = Some res \<and>
      written res = [0, 0, 0, 0, 1, 0, 0, 0, 3, 0, 0, 0] \<and>
      (0::nat) < 2 \<and> (2::nat) < length (written res) div 4 \<and>
      [97, 98, 97 :: byte_t] ! 0 = [97, 98, 97] ! 2 \<and>
      (\<forall>k. 0 < k \<and> k < 2 \<longrightarrow> [97, 98, 97 :: byte_t] ! k \<noteq> [97, 98, 97] ! 0) \<and>
      bkCdBufferAt (written res) 0 \<noteq> bkCdBufferAt (written res) 2"
proof -
  have h: "\<forall>n. (None :: nat option) = Some n \<longrightarrow> 0 < n \<and> n < 2 ^ 32" by simp
  obtain res where r: "mainMap False False None None [97, 98, 99, 97, 98, 99] [97, 98, 97] = Some res"
    and o: "written res = [0, 0, 0, 0, 1, 0, 0, 0, 3, 0, 0, 0]"
    by (simp add: run_simps)
  have c: "(0::nat) < 2" "(2::nat) < length (written res) div 4"
    "[97, 98, 97 :: byte_t] ! 0 = [97, 98, 97] ! 2" unfolding o by simp_all
  have b: "\<forall>k. 0 < k \<and> k < 2 \<longrightarrow> [97, 98, 97 :: byte_t] ! k \<noteq> [97, 98, 97] ! 0"
  proof (intro allI impI)
    fix k :: nat assume "0 < k \<and> k < 2"
    then have "k = 1" by simp
    then show "[97, 98, 97 :: byte_t] ! k \<noteq> [97, 98, 97] ! 0" by simp
  qed
  from mainMap_no_immediate_repeat[OF h r c b] r o c b show ?thesis by blast
qed

text \<open>Claim C7 fails on the code. The byte 99 of the book file \<open>[97, 98, 99, 100]\<close> stands at
  offset 2, the first position of the second window of 2 bytes (no part of this book file is
  left unused). After the window is reloaded the scan goes on at position 1 of the buffer, so
  offset 2 is never compared, and the run stops with the error instead of writing offset 2;
  with or without duplicates allowed.\<close>

theorem mainMap_skips_window_start:
  "[97, 98, 99, 100 :: byte_t] ! 2 = 99 \<and>
   mainMap False False (Some 2) None [97, 98, 99, 100] [99] = Some (Inl (NotEnoughEntropy, [])) \<and>
   mainMap True False (Some 2) None [97, 98, 99, 100] [99] = Some (Inl (NotEnoughEntropy, []))"
  by (simp add: run_simps)

text \<open>Claim C8. When the length of the book code is not a multiple of 4, \<open>extractBytes\<close> returns
  normally and has written one byte for each whole 4-byte unit, \<open>length div 4\<close> bytes in all,
  each the byte that \<open>fseek\<close> and \<open>fgetc\<close> give for that unit: the partial unit at the end is
  dropped. The book code is read in chunks of whole units (\<open>bkCdBufSize\<close> is a positive multiple
  of 4, with fewer than \<open>2 ^ 32\<close> units) and \<open>extrFilBuffer\<close> holds a chunk's bytes.\<close>

theorem extractBytes_drops_partial_unit:
  assumes "0 < bkCdBufSize" and "4 dvd bkCdBufSize" and "bkCdBufSize div 4 < 2 ^ 32"
    and "bkCdBufSize div 4 \<le> length extrFilBuffer"
    and "length bkCdFil mod 4 \<noteq> 0"
  shows "\<exists>extrFil. extractBytes bkCdBufSize bkFil bkCdFil extrFilBuffer [] = Some (Inr extrFil)
           \<and> length extrFil = length bkCdFil div 4
           \<and> (\<forall>i < length bkCdFil div 4.
                 extrFil ! i = of_int (fgetcAt bkFil (unat (bkCdBufferAt bkCdFil i))))"
  using extractBytes_run[OF assms(1-4), of bkFil bkCdFil "[]"] by simp

theorem extractBytes_drops_partial_unit_witness:
  "(0::nat) < 8 \<and> (4::nat) dvd 8 \<and> (8::nat) div 4 < 2 ^ 32
     \<and> (8::nat) div 4 \<le> length [0, 0 :: byte_t]
     \<and> length [0, 0, 0, 0, 1, 0, 0, 0, 2, 0, 0, 0, 7 :: byte_t] mod 4 \<noteq> 0
     \<and> extractBytes 8 [97, 98, 99] [0, 0, 0, 0, 1, 0, 0, 0, 2, 0, 0, 0, 7] [0, 0] []
         = Some (Inr [97, 98, 99])"
proof -
  have h: "(0::nat) < 8" "(4::nat) dvd 8" "(8::nat) div 4 < 2 ^ 32"
    "(8::nat) div 4 \<le> length [0, 0 :: byte_t]"
    "length [0, 0, 0, 0, 1, 0, 0, 0, 2, 0, 0, 0, 7 :: byte_t] mod 4 \<noteq> 0"
    by simp_all
  from extractBytes_drops_partial_unit[OF h, of "[97, 98, 99]"]
  obtain extrFil where
    r: "extractBytes 8 [97, 98, 99] [0, 0, 0, 0, 1, 0, 0, 0, 2, 0, 0, 0, 7] [0, 0] [] = Some (Inr extrFil)"
    and l: "length extrFil = 3"
    and v: "\<forall>i<3. extrFil ! i =
       of_int (fgetcAt [97, 98, 99] (unat (bkCdBufferAt [0, 0, 0, 0, 1, 0, 0, 0, 2, 0, 0, 0, 7] i)))"
    by auto
  have "extrFil ! 0 = 97" "extrFil ! 1 = 98" "extrFil ! 2 = 99"
    using v by (simp_all add: fgetcAt_def bkCdBufferAt_def bytesOffset_def)
  with l have "extrFil = [97, 98, 99]"
    by (intro nth_equalityI) (auto simp add: less_Suc_eq numeral_3_eq_3 numeral_2_eq_2)
  with r h show ?thesis by simp
qed

text \<open>Claim C9. With the sizes the mapping branch sets up, only the first
  \<open>bkFilSize - bkFilSize % bkFilBufSize\<close> bytes of the book file are used: every offset written
  lies below that bound, the stream of the book file has not been read past it, and a byte value
  that occurs in the book file only past it stops the run with the error at the byte where the
  original file has it (the bytes \<open>xs\<close> before it being mapped).\<close>

theorem mainMap_tail_unused:
  assumes "\<forall>n. orgFilBufSizeGiven = Some n \<longrightarrow> 0 < n \<and> n < 2 ^ 32"
    and "length bkFil < 2 ^ 32"
    and "mainMapConfig duplicates reset bkFilBufSizeGiven (length bkFil) = Inr cfg"
    and "b \<in> set bkFil" and "b \<notin> set (take (bkFilSize cfg) bkFil)"
    and "mainMap duplicates reset bkFilBufSizeGiven orgFilBufSizeGiven bkFil xs = Some (Inr st)"
  shows "bkFilSize cfg = length bkFil - length bkFil mod bkFilBufSize cfg \<and>
         (\<forall>i<length xs. unat (bkCdBufferAt (bkCd st) i) < bkFilSize cfg) \<and>
         bkFilOff st \<le> bkFilSize cfg \<and>
         mainMap duplicates reset bkFilBufSizeGiven orgFilBufSizeGiven bkFil (xs @ b # ys)
           = Some (Inl (NotEnoughEntropy, bkCd st))"
proof -
  note C = mainMapConfig_Inr[OF assms(3)]
  have W: "2 \<le> bkFilBufSize cfg"
  proof (rule ccontr)
    assume "\<not> 2 \<le> bkFilBufSize cfg"
    with C(3) have "bkFilBufSize cfg = 1" by simp
    with C(5) have "take (bkFilSize cfg) bkFil = bkFil" by simp
    with assms(4,5) show False by simp
  qed
  from mainMap_written[OF assms(1,6)] assms(2) obtain ws where
    w0: "written (Inr st) = concat (map offsetBytes ws)"
    and l: "\<forall>st'. Inr st = (Inr st' :: (error \<times> byte_t list) + mapState) \<longrightarrow> length ws = length xs"
    and v: "\<forall>i<length ws. unat (ws ! i) < length bkFil - length bkFil mod
                     min (length bkFil) (case bkFilBufSizeGiven of None \<Rightarrow> DEFAULT_BUFFER_SIZE | Some k \<Rightarrow> k) \<and>
                   bkFil ! unat (ws ! i) = xs ! i"
    by blast
  from w0 l have ws: "bkCd st = concat (map offsetBytes ws)" "length ws = length xs"
    by (simp_all add: written_def)
  have "unat (bkCdBufferAt (bkCd st) i) < bkFilSize cfg" if "i < length xs" for i
  proof -
    from that ws(2) have i: "i < length ws" by simp
    have "bkCdBufferAt (bkCd st) i = ws ! i"
      using bkCdBufferAt_concat[OF i, of "[]"] ws(1) by simp
    with v i C(5,6) show ?thesis by simp
  qed
  with C(5) mainMap_absent[OF assms(1,2,3) W assms(5,6)] show ?thesis by blast
qed

theorem mainMap_tail_unused_witness:
  "length [97, 98, 99 :: byte_t] < 2 ^ 32 \<and>
   mainMapConfig False False (Some 2) (length [97, 98, 99 :: byte_t])
     = Inr \<lparr>allowDuplicates = False, resetAtEndOfBuf = False, bkFilSize = 2, bkFilBufSize = 2\<rparr> \<and>
   (99 :: byte_t) \<in> set [97, 98, 99] \<and> (99 :: byte_t) \<notin> set (take 2 [97, 98, 99]) \<and>
   (\<exists>st. mainMap False False (Some 2) None [97, 98, 99] [98] = Some (Inr st) \<and>
      bkCd st = [1, 0, 0, 0] \<and> bkFilOff st \<le> 2) \<and>
   mainMap False False (Some 2) None [97, 98, 99] [98, 99, 97] = Some (Inl (NotEnoughEntropy, [1, 0, 0, 0]))"
proof -
  have h: "\<forall>n. (None :: nat option) = Some n \<longrightarrow> 0 < n \<and> n < 2 ^ 32"
    "length [97, 98, 99 :: byte_t] < 2 ^ 32" by simp_all
  have cfg: "mainMapConfig False False (Some 2) (length [97, 98, 99 :: byte_t])
     = Inr \<lparr>allowDuplicates = False, resetAtEndOfBuf = False, bkFilSize = 2, bkFilBufSize = 2\<rparr>"
    by (simp add: mainMapConfig_def)
  have b: "(99 :: byte_t) \<in> set [97, 98, 99]"
    "(99 :: byte_t) \<notin> set (take (bkFilSize \<lparr>allowDuplicates = False, resetAtEndOfBuf = False,
         bkFilSize = 2, bkFilBufSize = 2\<rparr>) [97, 98, 99])"
    by (simp_all add: numeral_2_eq_2)
  obtain st where r: "mainMap False False (Some 2) None [97, 98, 99] [98] = Some (Inr st)"
    and o: "bkCd st = [1, 0, 0, 0]"
    by (simp add: run_simps)
  from mainMap_tail_unused[OF h cfg b r, of "[97]"] h(2) cfg b r o show ?thesis
    by (auto simp add: numeral_2_eq_2)
qed

text \<open>Claim C10. An offset at or past the end of the book file does not stop
  \<open>extractBytes\<close>: the unchecked \<open>fgetc\<close> returns \<open>EOF\<close>, the byte \<open>0xFF\<close> is stored for
  that unit, and the run goes on to write a byte for every whole unit of the book code.\<close>

theorem extractBytes_offset_past_end:
  assumes "0 < bkCdBufSize" and "4 dvd bkCdBufSize" and "bkCdBufSize div 4 < 2 ^ 32"
    and "bkCdBufSize div 4 \<le> length extrFilBuffer"
    and "i < length bkCdFil div 4"
    and "length bkFil \<le> unat (bkCdBufferAt bkCdFil i)"
  shows "\<exists>extrFil. extractBytes bkCdBufSize bkFil bkCdFil extrFilBuffer [] = Some (Inr extrFil)
           \<and> length extrFil = length bkCdFil div 4 \<and> extrFil ! i = 0xFF"
  using extractBytes_run[OF assms(1-4), of bkFil bkCdFil "[]"] assms(5)
    of_int_fgetcAt_EOF[OF assms(6)] by simp

theorem extractBytes_offset_past_end_witness:
  "(0::nat) < 8 \<and> (4::nat) dvd 8 \<and> (8::nat) div 4 < 2 ^ 32
     \<and> (8::nat) div 4 \<le> length [0, 0 :: byte_t]
     \<and> (1::nat) < length [0, 0, 0, 0, 3, 0, 0, 0, 2, 0, 0, 0 :: byte_t] div 4
     \<and> length [97, 98, 99 :: byte_t] \<le> unat (bkCdBufferAt [0, 0, 0, 0, 3, 0, 0, 0, 2, 0, 0, 0] 1)
     \<and> (\<exists>extrFil. extractBytes 8 [97, 98, 99] [0, 0, 0, 0, 3, 0, 0, 0, 2, 0, 0, 0] [0, 0] []
            = Some (Inr extrFil) \<and> length extrFil = 3 \<and> extrFil ! 1 = 0xFF)"
proof -
  have h: "(0::nat) < 8" "(4::nat) dvd 8" "(8::nat) div 4 < 2 ^ 32"
    "(8::nat) div 4 \<le> length [0, 0 :: byte_t]"
    "(1::nat) < length [0, 0, 0, 0, 3, 0, 0, 0, 2, 0, 0, 0 :: byte_t] div 4"
    "length [97, 98, 99 :: byte_t] \<le> unat (bkCdBufferAt [0, 0, 0, 0, 3, 0, 0, 0, 2, 0, 0, 0] 1)"
    by (simp_all add: bkCdBufferAt_def bytesOffset_def)
  from extractBytes_offset_past_end[OF h] h show ?thesis by simp
qed

end
